theory Spec2Isabelle
  imports Complex_Main
begin

section \<open>Batched tridiagonal solvers of OMEGA (Tridiagonal.h)\<close>

text \<open>
  The four solvers of \<^verbatim>\<open>Tridiagonal.h\<close> are embedded as functions on explicit scratch
  and array states. The type \<^verbatim>\<open>Real\<close> of the source is floating point; here it is the
  type \<^typ>\<open>real\<close>, so every statement below is about exact arithmetic. A division by
  zero yields infinity or NaN in the source and \<open>0\<close> in HOL: the theorems that depend on
  a quotient carry the hypothesis that its divisor is not zero. The \<^verbatim>\<open>int\<close> values of
  the source (extents, indices, strides) are far below \<open>2^30\<close> and are modelled without a
  width; an index that may become negative is computed in \<^typ>\<open>int\<close>.
\<close>

subsection \<open>Errors and views\<close>

datatype error = UndefinedShift | OutOfBounds

text \<open>A two-dimensional view: \<open>v i j\<close> is the source's \<^verbatim>\<open>v(i, j)\<close>.\<close>

type_synonym view2 = "nat \<Rightarrow> nat \<Rightarrow> real"

definition put :: "view2 \<Rightarrow> nat \<Rightarrow> nat \<Rightarrow> real \<Rightarrow> view2" where
  "put v i j a = v(i := (v i)(j := a))"

text \<open>
  \<^verbatim>\<open>struct TriDiagScratch\<close>: four views of extent \<open>NRow \<times> VecLength\<close>, indexed
  \<open>(K, IVec)\<close>. The field \<open>sNRow\<close> is \<^verbatim>\<open>Scratch.X.extent_int(0)\<close>.
\<close>

record TriDiagScratch =
  sNRow :: nat
  sDL :: view2
  sD :: view2
  sDU :: view2
  sX :: view2

subsection \<open>ThomasSolver::solve on scratch (lines 45--69)\<close>

definition Thomas_forward :: "nat \<Rightarrow> nat \<Rightarrow> TriDiagScratch \<Rightarrow> TriDiagScratch" where
  "Thomas_forward K IVec s =
     (let W = sDL s K IVec / sD s (K - 1) IVec;
          s1 = s\<lparr>sD := put (sD s) K IVec (sD s K IVec - W * sDU s (K - 1) IVec)\<rparr>
      in s1\<lparr>sX := put (sX s1) K IVec (sX s1 K IVec - W * sX s1 (K - 1) IVec)\<rparr>)"

definition Thomas_last :: "nat \<Rightarrow> nat \<Rightarrow> TriDiagScratch \<Rightarrow> TriDiagScratch" where
  "Thomas_last NRow IVec s =
     s\<lparr>sX := put (sX s) (NRow - 1) IVec (sX s (NRow - 1) IVec / sD s (NRow - 1) IVec)\<rparr>"

definition Thomas_backward :: "nat \<Rightarrow> nat \<Rightarrow> TriDiagScratch \<Rightarrow> TriDiagScratch" where
  "Thomas_backward K IVec s =
     s\<lparr>sX := put (sX s) K IVec
        ((sX s K IVec - sDU s K IVec * sX s (K + 1) IVec) / sD s K IVec)\<rparr>"

text \<open>
  The three loop nests of the source, rows outside and lanes inside. With no row the
  source reads \<^verbatim>\<open>Scratch.X(-1, IVec)\<close>, which is outside the view.
\<close>

definition ThomasSolver_solve :: "nat \<Rightarrow> TriDiagScratch \<Rightarrow> error + TriDiagScratch" where
  "ThomasSolver_solve VecLength Scratch =
     (let NRow = sNRow Scratch in
      if NRow = 0 then Inl OutOfBounds
      else
        let s1 = fold (\<lambda>K. fold (Thomas_forward K) [0..<VecLength]) [1..<NRow] Scratch;
            s2 = fold (Thomas_last NRow) [0..<VecLength] s1
        in Inr (fold (\<lambda>K. fold (Thomas_backward K) [0..<VecLength]) (rev [0..<NRow - 1]) s2))"

subsection \<open>PCRSolver::solve on scratch (lines 122--177)\<close>

text \<open>
  \<^verbatim>\<open>Kokkos::ceil(Kokkos::log2(NRow))\<close> for \<open>NRow \<ge> 1\<close>: the least \<open>L\<close> with
  \<open>NRow \<le> 2^L\<close>, found by counting up from \<open>L\<close>.
\<close>

function ceil_log2_from :: "nat \<Rightarrow> nat \<Rightarrow> nat" where
  "ceil_log2_from L n = (if n \<le> 2 ^ L then L else ceil_log2_from (Suc L) n)"
  by pat_completeness auto
termination
proof (relation "measure (\<lambda>(L, n). n - 2 ^ L)")
  show "wf (measure (\<lambda>(L, n). n - 2 ^ L))" by simp
next
  fix L n :: nat
  assume "\<not> n \<le> 2 ^ L"
  moreover have "(0::nat) < 2 ^ L" by simp
  ultimately have "n - 2 * 2 ^ L < n - 2 ^ L" by linarith
  then show "((Suc L, n), (L, n)) \<in> measure (\<lambda>(L, n). n - 2 ^ L)"
    by simp
qed

definition ceil_log2 :: "nat \<Rightarrow> nat" where
  "ceil_log2 n = ceil_log2_from 0 n"

text \<open>
  \<^verbatim>\<open>1 << n\<close> on \<^verbatim>\<open>int\<close>. A negative shift count is undefined behaviour in C++.
\<close>

definition shl1 :: "int \<Rightarrow> error + int" where
  "shl1 n = (if n < 0 then Inl UndefinedShift else Inr (2 ^ nat n))"

text \<open>
  One reduction level, as the team of \<open>NRow\<close> execution units runs it. Before the first
  barrier unit \<open>K\<close> only reads the scratch and computes four values
  (\<open>PCR_level_read\<close>, from the scratch \<open>s\<close> the level started with); between the two
  barriers it stores them into its own row (\<open>PCR_level_write\<close>).
\<close>

definition PCR_level_read :: "nat \<Rightarrow> TriDiagScratch \<Rightarrow> nat \<Rightarrow> real \<times> real \<times> real \<times> real" where
  "PCR_level_read Lev s K =
     (let NRow = int (sNRow s);
          HalfStride = (2::int) ^ (Lev - 1);
          Kmh0 = int K - HalfStride;
          Kmh = nat (if Kmh0 < 0 then 0 else Kmh0);
          Kph0 = int K + HalfStride;
          Kph = nat (if Kph0 \<ge> NRow then NRow - 1 else Kph0);
          alpha = - sDL s K 0 / sD s Kmh 0;
          gamma = - sDU s K 0 / sD s Kph 0;
          NewD = sD s K 0 + alpha * sDU s Kmh 0 + gamma * sDL s Kph 0;
          NewX = sX s K 0 + alpha * sX s Kmh 0 + gamma * sX s Kph 0;
          NewDL = alpha * sDL s Kmh 0;
          NewDU = gamma * sDU s Kph 0
      in (NewD, NewX, NewDL, NewDU))"

definition PCR_level_write :: "nat \<Rightarrow> real \<times> real \<times> real \<times> real \<Rightarrow> TriDiagScratch \<Rightarrow> TriDiagScratch" where
  "PCR_level_write K new s =
     (case new of (NewD, NewX, NewDL, NewDU) \<Rightarrow>
        s\<lparr>sD := put (sD s) K 0 NewD, sX := put (sX s) K 0 NewX,
          sDL := put (sDL s) K 0 NewDL, sDU := put (sDU s) K 0 NewDU\<rparr>)"

definition PCR_level :: "nat \<Rightarrow> TriDiagScratch \<Rightarrow> TriDiagScratch" where
  "PCR_level Lev s =
     fold (\<lambda>K. PCR_level_write K (PCR_level_read Lev s K)) [0..<sNRow s] s"

text \<open>
  The code after the loop, for unit \<open>K\<close>. In the pairing branch the unit reads and
  writes rows \<open>K\<close> and \<open>K + Stride\<close>, in the other branch row \<open>K\<close> only.
\<close>

definition PCR_final :: "int \<Rightarrow> nat \<Rightarrow> TriDiagScratch \<Rightarrow> TriDiagScratch" where
  "PCR_final Stride K s =
     (let NRow = int (sNRow s) in
      if int K + Stride < NRow \<or> int K - Stride \<ge> 0 then
        if int K < NRow div 2 then
          let Kps = nat (int K + Stride);
              Det = sD s K 0 * sD s Kps 0 - sDL s Kps 0 * sDU s K 0;
              Xk = sX s K 0;
              Xkps = sX s Kps 0;
              s1 = s\<lparr>sX := put (sX s) K 0 ((sD s Kps 0 * Xk - sDU s K 0 * Xkps) / Det)\<rparr>
          in s1\<lparr>sX := put (sX s1) Kps 0 ((- sDL s1 Kps 0 * Xk + sD s1 K 0 * Xkps) / Det)\<rparr>
        else s
      else s\<lparr>sX := put (sX s) K 0 (sX s K 0 / sD s K 0)\<rparr>)"

text \<open>
  The whole team: the levels \<open>Lev = 1, \<dots>, NLevels - 1\<close>, then the final stride and the
  code after the loop for every unit (units touch disjoint rows there, so they are run
  in ascending order of \<open>K\<close>). With no row there is no execution unit.
\<close>

definition PCRSolver_solve :: "TriDiagScratch \<Rightarrow> error + TriDiagScratch" where
  "PCRSolver_solve Scratch =
     (let NRow = sNRow Scratch in
      if NRow = 0 then Inr Scratch
      else
        let NLevels = ceil_log2 NRow;
            s1 = fold PCR_level [1..<NLevels] Scratch
        in case shl1 (int NLevels - 1) of
             Inl e \<Rightarrow> Inl e
           | Inr Stride \<Rightarrow> Inr (fold (PCR_final Stride) [0..<NRow] s1))"

subsection \<open>The caller's arrays\<close>

text \<open>
  An \<^verbatim>\<open>Array2DReal\<close> is a handle: the identity of the memory it refers to and its
  two extents. The memory of all arrays is a store from identities to contents, so that
  two handles may refer to the same memory. The source reads the extents of \<^verbatim>\<open>X\<close> only;
  the arrays of one call are taken to have the shape of \<^verbatim>\<open>X\<close>.
\<close>

record 'a Array2DReal =
  ident :: 'a
  extent0 :: nat
  extent1 :: nat

type_synonym 'a store = "'a \<Rightarrow> view2"

definition rd :: "'a store \<Rightarrow> 'a Array2DReal \<Rightarrow> nat \<Rightarrow> nat \<Rightarrow> real" where
  "rd h A i j = h (ident A) i j"

definition wr :: "'a store \<Rightarrow> 'a Array2DReal \<Rightarrow> nat \<Rightarrow> nat \<Rightarrow> real \<Rightarrow> 'a store" where
  "wr h A i j a = h(ident A := put (h (ident A)) i j a)"

text \<open>
  \<^verbatim>\<open>TriDiagScratch Scratch(Member, NRow)\<close>: views of \<open>NRow\<close> rows over the team's scratch
  memory, whose contents \<open>mem\<close> are whatever was there before.
\<close>

definition TriDiagScratch_new :: "TriDiagScratch \<Rightarrow> nat \<Rightarrow> TriDiagScratch" where
  "TriDiagScratch_new mem NRow = mem\<lparr>sNRow := NRow\<rparr>"

subsection \<open>ThomasSolver::solve on arrays (lines 71--110)\<close>

definition Thomas_load ::
  "'a store \<Rightarrow> 'a Array2DReal \<Rightarrow> 'a Array2DReal \<Rightarrow> 'a Array2DReal \<Rightarrow> 'a Array2DReal \<Rightarrow>
   nat \<Rightarrow> nat \<Rightarrow> nat \<Rightarrow> nat \<Rightarrow> TriDiagScratch \<Rightarrow> TriDiagScratch" where
  "Thomas_load h DL D DU X NBatch IStart K IVec s =
     (let I = IStart + IVec in
      if I < NBatch then
        s\<lparr>sDL := put (sDL s) K IVec (rd h DL I K), sD := put (sD s) K IVec (rd h D I K),
          sDU := put (sDU s) K IVec (rd h DU I K), sX := put (sX s) K IVec (rd h X I K)\<rparr>
      else
        s\<lparr>sDL := put (sDL s) K IVec 0, sD := put (sD s) K IVec 1,
          sDU := put (sDU s) K IVec 0, sX := put (sX s) K IVec 0\<rparr>)"

definition Thomas_store ::
  "TriDiagScratch \<Rightarrow> 'a Array2DReal \<Rightarrow> nat \<Rightarrow> nat \<Rightarrow> nat \<Rightarrow> nat \<Rightarrow> 'a store \<Rightarrow> 'a store" where
  "Thomas_store s X NBatch IStart IVec K h =
     (let I = IStart + IVec in
      if I < NBatch then wr h X I K (sX s K IVec) else h)"

text \<open>The two loop nests around the call of the scratch solver: staging and write-back.\<close>

definition Thomas_stage ::
  "nat \<Rightarrow> nat \<Rightarrow> TriDiagScratch \<Rightarrow> 'a Array2DReal \<Rightarrow> 'a Array2DReal \<Rightarrow> 'a Array2DReal \<Rightarrow>
   'a Array2DReal \<Rightarrow> 'a store \<Rightarrow> TriDiagScratch" where
  "Thomas_stage VecLength league_rank mem DL D DU X h =
     (let NBatch = extent0 X;
          NRow = extent1 X;
          IStart = league_rank * VecLength
      in fold (\<lambda>K. fold (Thomas_load h DL D DU X NBatch IStart K) [0..<VecLength])
           [0..<NRow] (TriDiagScratch_new mem NRow))"

definition Thomas_writeback ::
  "nat \<Rightarrow> nat \<Rightarrow> TriDiagScratch \<Rightarrow> 'a Array2DReal \<Rightarrow> 'a store \<Rightarrow> 'a store" where
  "Thomas_writeback VecLength league_rank s X h =
     (let NBatch = extent0 X;
          NRow = extent1 X;
          IStart = league_rank * VecLength
      in fold (\<lambda>IVec. fold (Thomas_store s X NBatch IStart IVec) [0..<NRow]) [0..<VecLength] h)"

definition ThomasSolver_solve_arrays ::
  "nat \<Rightarrow> nat \<Rightarrow> TriDiagScratch \<Rightarrow> 'a Array2DReal \<Rightarrow> 'a Array2DReal \<Rightarrow> 'a Array2DReal \<Rightarrow>
   'a Array2DReal \<Rightarrow> 'a store \<Rightarrow> error + 'a store" where
  "ThomasSolver_solve_arrays VecLength league_rank mem DL D DU X h =
     (case ThomasSolver_solve VecLength (Thomas_stage VecLength league_rank mem DL D DU X h) of
        Inl e \<Rightarrow> Inl e
      | Inr s \<Rightarrow> Inr (Thomas_writeback VecLength league_rank s X h))"

subsection \<open>PCRSolver::solve on arrays (lines 179--213)\<close>

text \<open>
  The team of league rank \<open>I\<close>; unit \<open>K\<close> stages row \<open>K\<close>, and after the team has solved
  the staged system it writes row \<open>K\<close> back.
\<close>

definition PCR_load ::
  "'a store \<Rightarrow> 'a Array2DReal \<Rightarrow> 'a Array2DReal \<Rightarrow> 'a Array2DReal \<Rightarrow> 'a Array2DReal \<Rightarrow>
   nat \<Rightarrow> nat \<Rightarrow> nat \<Rightarrow> TriDiagScratch \<Rightarrow> TriDiagScratch" where
  "PCR_load h DL D DU X NBatch I K s =
     (if I < NBatch then
        s\<lparr>sDL := put (sDL s) K 0 (rd h DL I K), sD := put (sD s) K 0 (rd h D I K),
          sDU := put (sDU s) K 0 (rd h DU I K), sX := put (sX s) K 0 (rd h X I K)\<rparr>
      else
        s\<lparr>sDL := put (sDL s) K 0 0, sD := put (sD s) K 0 1,
          sDU := put (sDU s) K 0 0, sX := put (sX s) K 0 0\<rparr>)"

definition PCR_store ::
  "TriDiagScratch \<Rightarrow> 'a Array2DReal \<Rightarrow> nat \<Rightarrow> nat \<Rightarrow> nat \<Rightarrow> 'a store \<Rightarrow> 'a store" where
  "PCR_store s X NBatch I K h = (if I < NBatch then wr h X I K (sX s K 0) else h)"

definition PCR_stage ::
  "nat \<Rightarrow> TriDiagScratch \<Rightarrow> 'a Array2DReal \<Rightarrow> 'a Array2DReal \<Rightarrow> 'a Array2DReal \<Rightarrow>
   'a Array2DReal \<Rightarrow> 'a store \<Rightarrow> TriDiagScratch" where
  "PCR_stage league_rank mem DL D DU X h =
     (let NBatch = extent0 X;
          NRow = extent1 X;
          I = league_rank
      in fold (PCR_load h DL D DU X NBatch I) [0..<NRow] (TriDiagScratch_new mem NRow))"

definition PCR_writeback :: "nat \<Rightarrow> TriDiagScratch \<Rightarrow> 'a Array2DReal \<Rightarrow> 'a store \<Rightarrow> 'a store" where
  "PCR_writeback league_rank s X h =
     (let NBatch = extent0 X;
          NRow = extent1 X;
          I = league_rank
      in fold (PCR_store s X NBatch I) [0..<NRow] h)"

definition PCRSolver_solve_arrays ::
  "nat \<Rightarrow> TriDiagScratch \<Rightarrow> 'a Array2DReal \<Rightarrow> 'a Array2DReal \<Rightarrow> 'a Array2DReal \<Rightarrow>
   'a Array2DReal \<Rightarrow> 'a store \<Rightarrow> error + 'a store" where
  "PCRSolver_solve_arrays league_rank mem DL D DU X h =
     (case PCRSolver_solve (PCR_stage league_rank mem DL D DU X h) of
        Inl e \<Rightarrow> Inl e
      | Inr s \<Rightarrow> Inr (PCR_writeback league_rank s X h))"

subsection \<open>ThomasDiffusionSolver::solve on scratch (lines 236--280)\<close>

text \<open>\<^verbatim>\<open>struct TriDiagDiffScratch\<close>; \<open>dNRow\<close> is \<^verbatim>\<open>Scratch.X.extent_int(0)\<close>.\<close>

record TriDiagDiffScratch =
  dNRow :: nat
  dG :: view2
  dH :: view2
  dX :: view2
  dAlpha :: view2

definition ThomasDiff_alpha0 :: "nat \<Rightarrow> TriDiagDiffScratch \<Rightarrow> TriDiagDiffScratch" where
  "ThomasDiff_alpha0 IVec s = s\<lparr>dAlpha := put (dAlpha s) 0 IVec 0\<rparr>"

definition ThomasDiff_alpha :: "nat \<Rightarrow> nat \<Rightarrow> TriDiagDiffScratch \<Rightarrow> TriDiagDiffScratch" where
  "ThomasDiff_alpha K IVec s =
     s\<lparr>dAlpha := put (dAlpha s) K IVec
        (dG s (K - 1) IVec * (dH s (K - 1) IVec + dAlpha s (K - 1) IVec) /
         (dH s (K - 1) IVec + dAlpha s (K - 1) IVec + dG s (K - 1) IVec))\<rparr>"

definition ThomasDiff_h0 :: "nat \<Rightarrow> TriDiagDiffScratch \<Rightarrow> TriDiagDiffScratch" where
  "ThomasDiff_h0 IVec s = s\<lparr>dH := put (dH s) 0 IVec (dH s 0 IVec + dG s 0 IVec)\<rparr>"

definition ThomasDiff_forward :: "nat \<Rightarrow> nat \<Rightarrow> TriDiagDiffScratch \<Rightarrow> TriDiagDiffScratch" where
  "ThomasDiff_forward K IVec s =
     (let AddH = dAlpha s K IVec + dG s K IVec;
          s1 = s\<lparr>dH := put (dH s) K IVec (dH s K IVec + AddH)\<rparr>
      in s1\<lparr>dX := put (dX s1) K IVec
           (dX s1 K IVec + dG s1 (K - 1) IVec / dH s1 (K - 1) IVec * dX s1 (K - 1) IVec)\<rparr>)"

definition ThomasDiff_last :: "nat \<Rightarrow> nat \<Rightarrow> TriDiagDiffScratch \<Rightarrow> TriDiagDiffScratch" where
  "ThomasDiff_last NRow IVec s =
     s\<lparr>dX := put (dX s) (NRow - 1) IVec (dX s (NRow - 1) IVec / dH s (NRow - 1) IVec)\<rparr>"

definition ThomasDiff_backward :: "nat \<Rightarrow> nat \<Rightarrow> TriDiagDiffScratch \<Rightarrow> TriDiagDiffScratch" where
  "ThomasDiff_backward K IVec s =
     s\<lparr>dX := put (dX s) K IVec
        ((dX s K IVec + dG s K IVec * dX s (K + 1) IVec) / dH s K IVec)\<rparr>"

text \<open>With no row the first loop already writes \<^verbatim>\<open>Scratch.Alpha(0, IVec)\<close> outside the view.\<close>

definition ThomasDiffusionSolver_solve ::
  "nat \<Rightarrow> TriDiagDiffScratch \<Rightarrow> error + TriDiagDiffScratch" where
  "ThomasDiffusionSolver_solve VecLength Scratch =
     (let NRow = dNRow Scratch in
      if NRow = 0 then Inl OutOfBounds
      else
        let s1 = fold ThomasDiff_alpha0 [0..<VecLength] Scratch;
            s2 = fold (\<lambda>K. fold (ThomasDiff_alpha K) [0..<VecLength]) [1..<NRow] s1;
            s3 = fold ThomasDiff_h0 [0..<VecLength] s2;
            s4 = fold (\<lambda>K. fold (ThomasDiff_forward K) [0..<VecLength]) [1..<NRow] s3;
            s5 = fold (ThomasDiff_last NRow) [0..<VecLength] s4
        in Inr (fold (\<lambda>K. fold (ThomasDiff_backward K) [0..<VecLength]) (rev [0..<NRow - 1]) s5))"

subsection \<open>PCRDiffusionSolver::solve on scratch (lines 330--400)\<close>

definition PCRDiff_level_read :: "nat \<Rightarrow> TriDiagDiffScratch \<Rightarrow> nat \<Rightarrow> real \<times> real \<times> real" where
  "PCRDiff_level_read Lev s K =
     (let NRow = int (dNRow s);
          Stride = (2::int) ^ Lev;
          HalfStride = (2::int) ^ (Lev - 1);
          Kmh0 = int K - HalfStride;
          Gkmh = (if Kmh0 < 0 then 0 else dG s (nat Kmh0) 0);
          Kmh = nat (if Kmh0 < 0 then 0 else Kmh0);
          Kms = int K - Stride;
          Gkms = (if Kms < 0 then 0 else dG s (nat Kms) 0);
          Kph0 = int K + HalfStride;
          Kph = nat (if Kph0 \<ge> NRow then NRow - 1 else Kph0);
          Alpha = Gkmh / (dH s Kmh 0 + Gkms + Gkmh);
          Beta = dG s K 0 / (dH s Kph 0 + dG s K 0 + dG s Kph 0);
          NewG = dG s Kph 0 * Beta;
          NewX = dX s K 0 + Alpha * dX s Kmh 0 + Beta * dX s Kph 0;
          NewH = dH s K 0 + Alpha * dH s Kmh 0 + Beta * dH s Kph 0
      in (NewH, NewG, NewX))"

definition PCRDiff_level_write ::
  "nat \<Rightarrow> real \<times> real \<times> real \<Rightarrow> TriDiagDiffScratch \<Rightarrow> TriDiagDiffScratch" where
  "PCRDiff_level_write K new s =
     (case new of (NewH, NewG, NewX) \<Rightarrow>
        s\<lparr>dH := put (dH s) K 0 NewH, dG := put (dG s) K 0 NewG, dX := put (dX s) K 0 NewX\<rparr>)"

definition PCRDiff_level :: "nat \<Rightarrow> TriDiagDiffScratch \<Rightarrow> TriDiagDiffScratch" where
  "PCRDiff_level Lev s =
     fold (\<lambda>K. PCRDiff_level_write K (PCRDiff_level_read Lev s K)) [0..<dNRow s] s"

definition PCRDiff_final :: "int \<Rightarrow> nat \<Rightarrow> TriDiagDiffScratch \<Rightarrow> TriDiagDiffScratch" where
  "PCRDiff_final Stride K s =
     (let NRow = int (dNRow s) in
      if int K + Stride < NRow \<or> int K - Stride \<ge> 0 then
        if int K < NRow div 2 then
          let Kms = int K - Stride;
              Gkms = (if Kms < 0 then 0 else dG s (nat Kms) 0);
              Kps = nat (int K + Stride);
              Dk = dH s K 0 + Gkms + dG s K 0;
              Dkps = dH s Kps 0 + dG s K 0 + dG s Kps 0;
              DUk = - dG s K 0;
              DLkps = - dG s K 0;
              Det = Dk * Dkps - DLkps * DUk;
              Xk = dX s K 0;
              Xkps = dX s Kps 0;
              s1 = s\<lparr>dX := put (dX s) K 0 ((Dkps * Xk - DUk * Xkps) / Det)\<rparr>
          in s1\<lparr>dX := put (dX s1) Kps 0 ((- DLkps * Xk + Dk * Xkps) / Det)\<rparr>
        else s
      else
        let Kms = int K - Stride;
            Gkms = (if Kms < 0 then 0 else dG s (nat Kms) 0)
        in s\<lparr>dX := put (dX s) K 0 (dX s K 0 / (dH s K 0 + Gkms + dG s K 0))\<rparr>)"

definition PCRDiffusionSolver_solve :: "TriDiagDiffScratch \<Rightarrow> error + TriDiagDiffScratch" where
  "PCRDiffusionSolver_solve Scratch =
     (let NRow = dNRow Scratch in
      if NRow = 0 then Inr Scratch
      else
        let NLevels = ceil_log2 NRow;
            s1 = fold PCRDiff_level [1..<NLevels] Scratch
        in case shl1 (int NLevels - 1) of
             Inl e \<Rightarrow> Inl e
           | Inr Stride \<Rightarrow> Inr (fold (PCRDiff_final Stride) [0..<NRow] s1))"

subsection \<open>The diffusion solvers on arrays (lines 282--318 and 402--424)\<close>

definition TriDiagDiffScratch_new :: "TriDiagDiffScratch \<Rightarrow> nat \<Rightarrow> TriDiagDiffScratch" where
  "TriDiagDiffScratch_new mem NRow = mem\<lparr>dNRow := NRow\<rparr>"

definition ThomasDiff_load ::
  "'a store \<Rightarrow> 'a Array2DReal \<Rightarrow> 'a Array2DReal \<Rightarrow> 'a Array2DReal \<Rightarrow>
   nat \<Rightarrow> nat \<Rightarrow> nat \<Rightarrow> nat \<Rightarrow> TriDiagDiffScratch \<Rightarrow> TriDiagDiffScratch" where
  "ThomasDiff_load h G H X NBatch IStart K IVec s =
     (let I = IStart + IVec in
      if I < NBatch then
        s\<lparr>dG := put (dG s) K IVec (rd h G I K), dH := put (dH s) K IVec (rd h H I K),
          dX := put (dX s) K IVec (rd h X I K)\<rparr>
      else
        s\<lparr>dG := put (dG s) K IVec 0, dH := put (dH s) K IVec 1, dX := put (dX s) K IVec 0\<rparr>)"

definition ThomasDiff_store ::
  "TriDiagDiffScratch \<Rightarrow> 'a Array2DReal \<Rightarrow> nat \<Rightarrow> nat \<Rightarrow> nat \<Rightarrow> nat \<Rightarrow> 'a store \<Rightarrow> 'a store" where
  "ThomasDiff_store s X NBatch IStart IVec K h =
     (let I = IStart + IVec in
      if I < NBatch then wr h X I K (dX s K IVec) else h)"

definition ThomasDiff_stage ::
  "nat \<Rightarrow> nat \<Rightarrow> TriDiagDiffScratch \<Rightarrow> 'a Array2DReal \<Rightarrow> 'a Array2DReal \<Rightarrow>
   'a Array2DReal \<Rightarrow> 'a store \<Rightarrow> TriDiagDiffScratch" where
  "ThomasDiff_stage VecLength league_rank mem G H X h =
     (let NBatch = extent0 X;
          NRow = extent1 X;
          IStart = league_rank * VecLength
      in fold (\<lambda>K. fold (ThomasDiff_load h G H X NBatch IStart K) [0..<VecLength])
           [0..<NRow] (TriDiagDiffScratch_new mem NRow))"

definition ThomasDiff_writeback ::
  "nat \<Rightarrow> nat \<Rightarrow> TriDiagDiffScratch \<Rightarrow> 'a Array2DReal \<Rightarrow> 'a store \<Rightarrow> 'a store" where
  "ThomasDiff_writeback VecLength league_rank s X h =
     (let NBatch = extent0 X;
          NRow = extent1 X;
          IStart = league_rank * VecLength
      in fold (\<lambda>IVec. fold (ThomasDiff_store s X NBatch IStart IVec) [0..<NRow]) [0..<VecLength] h)"

definition ThomasDiffusionSolver_solve_arrays ::
  "nat \<Rightarrow> nat \<Rightarrow> TriDiagDiffScratch \<Rightarrow> 'a Array2DReal \<Rightarrow> 'a Array2DReal \<Rightarrow>
   'a Array2DReal \<Rightarrow> 'a store \<Rightarrow> error + 'a store" where
  "ThomasDiffusionSolver_solve_arrays VecLength league_rank mem G H X h =
     (case ThomasDiffusionSolver_solve VecLength (ThomasDiff_stage VecLength league_rank mem G H X h) of
        Inl e \<Rightarrow> Inl e
      | Inr s \<Rightarrow> Inr (ThomasDiff_writeback VecLength league_rank s X h))"

text \<open>
  \<^verbatim>\<open>PCRDiffusionSolver::solve\<close> on arrays has no test of \<^verbatim>\<open>I < NBatch\<close>: a team whose
  league rank is not below \<open>NBatch\<close> reads \<^verbatim>\<open>G(I, K)\<close>, \<^verbatim>\<open>H(I, K)\<close> and \<^verbatim>\<open>X(I, K)\<close>
  outside the arrays.
\<close>

definition PCRDiff_load ::
  "'a store \<Rightarrow> 'a Array2DReal \<Rightarrow> 'a Array2DReal \<Rightarrow> 'a Array2DReal \<Rightarrow>
   nat \<Rightarrow> nat \<Rightarrow> TriDiagDiffScratch \<Rightarrow> TriDiagDiffScratch" where
  "PCRDiff_load h G H X I K s =
     s\<lparr>dG := put (dG s) K 0 (rd h G I K), dH := put (dH s) K 0 (rd h H I K),
       dX := put (dX s) K 0 (rd h X I K)\<rparr>"

definition PCRDiff_store ::
  "TriDiagDiffScratch \<Rightarrow> 'a Array2DReal \<Rightarrow> nat \<Rightarrow> nat \<Rightarrow> 'a store \<Rightarrow> 'a store" where
  "PCRDiff_store s X I K h = wr h X I K (dX s K 0)"

definition PCRDiff_stage ::
  "nat \<Rightarrow> TriDiagDiffScratch \<Rightarrow> 'a Array2DReal \<Rightarrow> 'a Array2DReal \<Rightarrow>
   'a Array2DReal \<Rightarrow> 'a store \<Rightarrow> TriDiagDiffScratch" where
  "PCRDiff_stage league_rank mem G H X h =
     fold (PCRDiff_load h G H X league_rank) [0..<extent1 X] (TriDiagDiffScratch_new mem (extent1 X))"

definition PCRDiff_writeback ::
  "nat \<Rightarrow> TriDiagDiffScratch \<Rightarrow> 'a Array2DReal \<Rightarrow> 'a store \<Rightarrow> 'a store" where
  "PCRDiff_writeback league_rank s X h = fold (PCRDiff_store s X league_rank) [0..<extent1 X] h"

definition PCRDiffusionSolver_solve_arrays ::
  "nat \<Rightarrow> TriDiagDiffScratch \<Rightarrow> 'a Array2DReal \<Rightarrow> 'a Array2DReal \<Rightarrow>
   'a Array2DReal \<Rightarrow> 'a store \<Rightarrow> error + 'a store" where
  "PCRDiffusionSolver_solve_arrays league_rank mem G H X h =
     (let NBatch = extent0 X;
          NRow = extent1 X;
          I = league_rank
      in if NBatch \<le> I \<and> 0 < NRow then Inl OutOfBounds
         else
           case PCRDiffusionSolver_solve (PCRDiff_stage league_rank mem G H X h) of
             Inl e \<Rightarrow> Inl e
           | Inr s \<Rightarrow> Inr (PCRDiff_writeback league_rank s X h))"

subsection \<open>The team policies (lines 38--43, 115--120, 229--234, 323--328)\<close>

text \<open>
  \<^verbatim>\<open>makeTeamPolicy(NBatch, NRow)\<close> gives the launch of a solver: the number of teams
  (the league), the threads of a team, the vector length and the scratch memory of a team
  in bytes. The sequential solvers take \<open>VecLength\<close> systems per team, one in each lane;
  the cyclic-reduction solvers take one system per team and one row per thread. The lane
  width \<open>VecLength\<close> is positive and \<open>sizeof_Real\<close> stands for \<^verbatim>\<open>sizeof(Real)\<close>.
\<close>

record TeamPolicy =
  league_size :: nat
  team_size :: nat
  vector_length :: nat
  scratch_size :: nat

definition ThomasSolver_makeTeamPolicy :: "nat \<Rightarrow> nat \<Rightarrow> nat \<Rightarrow> nat \<Rightarrow> TeamPolicy" where
  "ThomasSolver_makeTeamPolicy VecLength sizeof_Real NBatch NRow =
     \<lparr>league_size = (NBatch + VecLength - 1) div VecLength, team_size = 1, vector_length = 1,
      scratch_size = 4 * NRow * VecLength * sizeof_Real\<rparr>"

definition PCRSolver_makeTeamPolicy :: "nat \<Rightarrow> nat \<Rightarrow> nat \<Rightarrow> nat \<Rightarrow> TeamPolicy" where
  "PCRSolver_makeTeamPolicy VecLength sizeof_Real NBatch NRow =
     \<lparr>league_size = NBatch, team_size = NRow, vector_length = 1,
      scratch_size = 4 * NRow * VecLength * sizeof_Real\<rparr>"

definition ThomasDiffusionSolver_makeTeamPolicy :: "nat \<Rightarrow> nat \<Rightarrow> nat \<Rightarrow> nat \<Rightarrow> TeamPolicy" where
  "ThomasDiffusionSolver_makeTeamPolicy VecLength sizeof_Real NBatch NRow =
     \<lparr>league_size = (NBatch + VecLength - 1) div VecLength, team_size = 1, vector_length = 1,
      scratch_size = 4 * NRow * VecLength * sizeof_Real\<rparr>"


subsection \<open>The sequential elimination as recurrences (spec 4.1)\<close>

fun thomas_d :: "(nat \<Rightarrow> real) \<Rightarrow> (nat \<Rightarrow> real) \<Rightarrow> (nat \<Rightarrow> real) \<Rightarrow> nat \<Rightarrow> real" where
  "thomas_d sub diag super 0 = diag 0"
| "thomas_d sub diag super (Suc k) =
     diag (Suc k) - sub (Suc k) / thomas_d sub diag super k * super k"

fun thomas_c :: "(nat \<Rightarrow> real) \<Rightarrow> (nat \<Rightarrow> real) \<Rightarrow> (nat \<Rightarrow> real) \<Rightarrow> (nat \<Rightarrow> real) \<Rightarrow> nat \<Rightarrow> real" where
  "thomas_c sub diag super rhs 0 = rhs 0"
| "thomas_c sub diag super rhs (Suc k) =
     rhs (Suc k) - sub (Suc k) / thomas_d sub diag super k * thomas_c sub diag super rhs k"

function back_subst :: "nat \<Rightarrow> (nat \<Rightarrow> real) \<Rightarrow> (nat \<Rightarrow> real) \<Rightarrow> (nat \<Rightarrow> real) \<Rightarrow> nat \<Rightarrow> real" where
  "back_subst M d u c k =
     (if M \<le> Suc k then c k / d k else (c k - u k * back_subst M d u c (Suc k)) / d k)"
  by pat_completeness auto
termination
  by (relation "measure (\<lambda>(M, d, u, c, k). M - k)") auto

declare back_subst.simps [simp del]

definition thomas_x :: "nat \<Rightarrow> (nat \<Rightarrow> real) \<Rightarrow> (nat \<Rightarrow> real) \<Rightarrow> (nat \<Rightarrow> real) \<Rightarrow> (nat \<Rightarrow> real) \<Rightarrow> nat \<Rightarrow> real" where
  "thomas_x M sub diag super rhs =
     back_subst M (thomas_d sub diag super) super (thomas_c sub diag super rhs)"

definition lane :: "view2 \<Rightarrow> nat \<Rightarrow> nat \<Rightarrow> real" where
  "lane v i = (\<lambda>k. v k i)"

subsection \<open>The sequential diffusion solver in the words of the specification (spec 4.3)\<close>

fun spec_alpha :: "(nat \<Rightarrow> real) \<Rightarrow> (nat \<Rightarrow> real) \<Rightarrow> nat \<Rightarrow> real" where
  "spec_alpha G H 0 = 0"
| "spec_alpha G H (Suc k) =
     G k * (H k + spec_alpha G H k) / (H k + spec_alpha G H k + G k)"

fun spec_H :: "(nat \<Rightarrow> real) \<Rightarrow> (nat \<Rightarrow> real) \<Rightarrow> nat \<Rightarrow> real" where
  "spec_H G H 0 = H 0 + G 0"
| "spec_H G H (Suc k) = H (Suc k) + (spec_alpha G H (Suc k) + G (Suc k))"

fun spec_rhs :: "(nat \<Rightarrow> real) \<Rightarrow> (nat \<Rightarrow> real) \<Rightarrow> (nat \<Rightarrow> real) \<Rightarrow> nat \<Rightarrow> real" where
  "spec_rhs G H rhs 0 = rhs 0"
| "spec_rhs G H rhs (Suc k) = rhs (Suc k) + G k / spec_H G H k * spec_rhs G H rhs k"

function diff_back :: "nat \<Rightarrow> (nat \<Rightarrow> real) \<Rightarrow> (nat \<Rightarrow> real) \<Rightarrow> (nat \<Rightarrow> real) \<Rightarrow> nat \<Rightarrow> real" where
  "diff_back M h g c k =
     (if M \<le> Suc k then c k / h k else (c k + g k * diff_back M h g c (Suc k)) / h k)"
  by pat_completeness auto
termination
  by (relation "measure (\<lambda>(M, h, g, c, k). M - k)") auto

declare diff_back.simps [simp del]

definition spec_diff_x :: "nat \<Rightarrow> (nat \<Rightarrow> real) \<Rightarrow> (nat \<Rightarrow> real) \<Rightarrow> (nat \<Rightarrow> real) \<Rightarrow> nat \<Rightarrow> real" where
  "spec_diff_x M G H rhs = diff_back M (spec_H G H) G (spec_rhs G H rhs)"

subsection \<open>The cyclic reduction in the words of the specification (spec 4.2)\<close>

text \<open>One system: its three coefficient sequences and its right-hand side.\<close>

record rowsys =
  p_sub :: "nat \<Rightarrow> real"
  p_diag :: "nat \<Rightarrow> real"
  p_super :: "nat \<Rightarrow> real"
  p_rhs :: "nat \<Rightarrow> real"

text \<open>The neighbours of row \<open>k\<close> at distance \<open>half\<close>, clamped to \<open>[0, M - 1]\<close>.\<close>

definition below :: "nat \<Rightarrow> nat \<Rightarrow> nat" where
  "below half k = (if k < half then 0 else k - half)"

definition above :: "nat \<Rightarrow> nat \<Rightarrow> nat \<Rightarrow> nat" where
  "above M half k = (if M \<le> k + half then M - 1 else k + half)"

definition spec_pcr_level :: "nat \<Rightarrow> nat \<Rightarrow> rowsys \<Rightarrow> rowsys" where
  "spec_pcr_level M lev y =
     (let half = 2 ^ (lev - 1);
          alpha = (\<lambda>k. - p_sub y k / p_diag y (below half k));
          gamma = (\<lambda>k. - p_super y k / p_diag y (above M half k))
      in \<lparr>p_sub = (\<lambda>k. if k < M then alpha k * p_sub y (below half k) else p_sub y k),
          p_diag = (\<lambda>k. if k < M
                     then p_diag y k + alpha k * p_super y (below half k)
                                     + gamma k * p_sub y (above M half k)
                     else p_diag y k),
          p_super = (\<lambda>k. if k < M then gamma k * p_super y (above M half k) else p_super y k),
          p_rhs = (\<lambda>k. if k < M
                     then p_rhs y k + alpha k * p_rhs y (below half k)
                                    + gamma k * p_rhs y (above M half k)
                     else p_rhs y k)\<rparr>)"

text \<open>
  The termination step at the final stride: a row with a partner \<open>k + stride\<close> below
  \<open>M\<close> is the lower row of a pair, a row \<open>k \<ge> stride\<close> is the upper row of the pair of
  \<open>k - stride\<close>; a pair is evaluated when its lower row is below \<open>M / 2\<close>; a row with
  no partner divides directly.
\<close>

definition spec_pcr_det :: "nat \<Rightarrow> rowsys \<Rightarrow> nat \<Rightarrow> real" where
  "spec_pcr_det stride y k =
     p_diag y k * p_diag y (k + stride) - p_sub y (k + stride) * p_super y k"

definition spec_pcr_x :: "nat \<Rightarrow> nat \<Rightarrow> rowsys \<Rightarrow> nat \<Rightarrow> real" where
  "spec_pcr_x M stride y k =
     (if k + stride < M then
        if k < M div 2
        then (p_diag y (k + stride) * p_rhs y k - p_super y k * p_rhs y (k + stride))
               / spec_pcr_det stride y k
        else p_rhs y k
      else if stride \<le> k then
        if k - stride < M div 2
        then (- p_sub y k * p_rhs y (k - stride) + p_diag y (k - stride) * p_rhs y k)
               / spec_pcr_det stride y (k - stride)
        else p_rhs y k
      else p_rhs y k / p_diag y k)"

text \<open>
  \<open>L - 1\<close> levels, then the termination step at the stride \<open>2^(L-1)\<close>. For one row
  \<open>L = 0\<close>, no level runs and the row has no partner at any stride (the stride is
  written with the truncating subtraction of \<^typ>\<open>nat\<close>, which makes it \<open>1\<close>).
\<close>

definition spec_pcr :: "nat \<Rightarrow> rowsys \<Rightarrow> nat \<Rightarrow> real" where
  "spec_pcr M y =
     (let L = ceil_log2 M
      in spec_pcr_x M (2 ^ (L - 1)) (fold (spec_pcr_level M) [1..<L] y))"

text \<open>The system held in lane \<open>i\<close> of a scratch.\<close>

definition sys_of :: "TriDiagScratch \<Rightarrow> nat \<Rightarrow> rowsys" where
  "sys_of s i = \<lparr>p_sub = lane (sDL s) i, p_diag = lane (sD s) i,
                 p_super = lane (sDU s) i, p_rhs = lane (sX s) i\<rparr>"

subsection \<open>Systems, solutions and well-posedness\<close>

text \<open>
  Row \<open>k\<close> of the product \<open>A x\<close>, where \<open>A\<close> is the tridiagonal matrix of \<open>M\<close> rows with
  the entries of \<open>y\<close>. The entries \<open>p_sub y 0\<close> and \<open>p_super y (M - 1)\<close> are not part of
  the matrix.
\<close>

definition matvec :: "nat \<Rightarrow> rowsys \<Rightarrow> (nat \<Rightarrow> real) \<Rightarrow> nat \<Rightarrow> real" where
  "matvec M y x k =
     (if 0 < k then p_sub y k * x (k - 1) else 0) + p_diag y k * x k +
     (if k + 1 < M then p_super y k * x (k + 1) else 0)"

definition solves :: "nat \<Rightarrow> rowsys \<Rightarrow> (nat \<Rightarrow> real) \<Rightarrow> bool" where
  "solves M y x = (\<forall>k<M. matvec M y x k = p_rhs y k)"

text \<open>Strict diagonal dominance of the rows of the matrix.\<close>

definition dominant :: "nat \<Rightarrow> rowsys \<Rightarrow> bool" where
  "dominant M y =
     (\<forall>k<M. (if 0 < k then \<bar>p_sub y k\<bar> else 0) + (if k + 1 < M then \<bar>p_super y k\<bar> else 0)
              < \<bar>p_diag y k\<bar>)"

text \<open>The two array entries outside the matrix are zero.\<close>

definition boundary_zero :: "nat \<Rightarrow> rowsys \<Rightarrow> bool" where
  "boundary_zero M y = (p_sub y 0 = 0 \<and> p_super y (M - 1) = 0)"

text \<open>The sequential elimination on a system.\<close>

definition thomas :: "nat \<Rightarrow> rowsys \<Rightarrow> nat \<Rightarrow> real" where
  "thomas M y = thomas_x M (p_sub y) (p_diag y) (p_super y) (p_rhs y)"

text \<open>
  The state of the cyclic reduction when rows are coupled at distance \<open>h\<close>: the
  equations that \<open>x\<close> satisfies, the coefficients that have to vanish, and dominance
  over both stored off-diagonal entries.
\<close>

definition solves_at :: "nat \<Rightarrow> nat \<Rightarrow> rowsys \<Rightarrow> (nat \<Rightarrow> real) \<Rightarrow> bool" where
  "solves_at M h y x =
     (\<forall>k<M. (if h \<le> k then p_sub y k * x (k - h) else 0) + p_diag y k * x k +
             (if k + h < M then p_super y k * x (k + h) else 0) = p_rhs y k)"

definition zero_at :: "nat \<Rightarrow> nat \<Rightarrow> rowsys \<Rightarrow> bool" where
  "zero_at M h y = (\<forall>k<M. (k < h \<longrightarrow> p_sub y k = 0) \<and> (M \<le> k + h \<longrightarrow> p_super y k = 0))"

definition dominant_all :: "nat \<Rightarrow> rowsys \<Rightarrow> bool" where
  "dominant_all M y = (\<forall>k<M. \<bar>p_sub y k\<bar> + \<bar>p_super y k\<bar> < \<bar>p_diag y k\<bar>)"

text \<open>System \<open>I\<close> of a batch held in the caller's arrays, and the inert system of a
  padding lane.\<close>

definition row_sys ::
  "'a store \<Rightarrow> 'a Array2DReal \<Rightarrow> 'a Array2DReal \<Rightarrow> 'a Array2DReal \<Rightarrow> 'a Array2DReal \<Rightarrow> nat \<Rightarrow> rowsys" where
  "row_sys h DL D DU X I = \<lparr>p_sub = rd h DL I, p_diag = rd h D I, p_super = rd h DU I, p_rhs = rd h X I\<rparr>"


subsection \<open>The cyclic reduction of the diffusion form (spec 4.4)\<close>

text \<open>One diffusion system: couplings, local coefficients and right-hand side.\<close>

record dsys =
  q_G :: "nat \<Rightarrow> real"
  q_H :: "nat \<Rightarrow> real"
  q_X :: "nat \<Rightarrow> real"

text \<open>A coupling that would reference a row below row \<open>0\<close> counts as \<open>0\<close>.\<close>

definition coupling_below :: "dsys \<Rightarrow> nat \<Rightarrow> nat \<Rightarrow> real" where
  "coupling_below g h k = (if k < h then 0 else q_G g (k - h))"

definition spec_pcrdiff_level :: "nat \<Rightarrow> nat \<Rightarrow> dsys \<Rightarrow> dsys" where
  "spec_pcrdiff_level M lev g =
     (let half = 2 ^ (lev - 1);
          stride = 2 ^ lev;
          Alpha = (\<lambda>k. coupling_below g half k /
                     (q_H g (below half k) + coupling_below g stride k + coupling_below g half k));
          Beta = (\<lambda>k. q_G g k / (q_H g (above M half k) + q_G g k + q_G g (above M half k)))
      in \<lparr>q_G = (\<lambda>k. if k < M then q_G g (above M half k) * Beta k else q_G g k),
          q_H = (\<lambda>k. if k < M
                   then q_H g k + Alpha k * q_H g (below half k) + Beta k * q_H g (above M half k)
                   else q_H g k),
          q_X = (\<lambda>k. if k < M
                   then q_X g k + Alpha k * q_X g (below half k) + Beta k * q_X g (above M half k)
                   else q_X g k)\<rparr>)"

text \<open>The effective diagonal \<open>H(k) + G(k - stride) + G(k)\<close> at the final stride.\<close>

definition effective_diag :: "nat \<Rightarrow> dsys \<Rightarrow> nat \<Rightarrow> real" where
  "effective_diag stride g k = q_H g k + coupling_below g stride k + q_G g k"

definition spec_pcrdiff_det :: "nat \<Rightarrow> dsys \<Rightarrow> nat \<Rightarrow> real" where
  "spec_pcrdiff_det stride g k =
     effective_diag stride g k * (q_H g (k + stride) + q_G g k + q_G g (k + stride))
       - (- q_G g k) * (- q_G g k)"

definition spec_pcrdiff_x :: "nat \<Rightarrow> nat \<Rightarrow> dsys \<Rightarrow> nat \<Rightarrow> real" where
  "spec_pcrdiff_x M stride g k =
     (if k + stride < M then
        if k < M div 2
        then ((q_H g (k + stride) + q_G g k + q_G g (k + stride)) * q_X g k
                - (- q_G g k) * q_X g (k + stride)) / spec_pcrdiff_det stride g k
        else q_X g k
      else if stride \<le> k then
        if k - stride < M div 2
        then (- (- q_G g (k - stride)) * q_X g (k - stride)
                + effective_diag stride g (k - stride) * q_X g k)
               / spec_pcrdiff_det stride g (k - stride)
        else q_X g k
      else q_X g k / effective_diag stride g k)"

definition spec_pcrdiff :: "nat \<Rightarrow> dsys \<Rightarrow> nat \<Rightarrow> real" where
  "spec_pcrdiff M g =
     (let L = ceil_log2 M
      in spec_pcrdiff_x M (2 ^ (L - 1)) (fold (spec_pcrdiff_level M) [1..<L] g))"

text \<open>The diffusion system held in lane \<open>i\<close> of a scratch.\<close>

definition dsys_of :: "TriDiagDiffScratch \<Rightarrow> nat \<Rightarrow> dsys" where
  "dsys_of s i = \<lparr>q_G = lane (dG s) i, q_H = lane (dH s) i, q_X = lane (dX s) i\<rparr>"

subsection \<open>The explicit form of a diffusion system\<close>

text \<open>
  The translation in the words of the specification: the diagonal at row \<open>k\<close> is \<open>H(k)\<close>
  plus the couplings to its neighbours, \<open>G(k-1)\<close> to row \<open>k - 1\<close> where there is one and
  \<open>G(k)\<close> to row \<open>k + 1\<close> where there is one; the off-diagonals are the negated couplings.
\<close>

definition translate :: "nat \<Rightarrow> dsys \<Rightarrow> rowsys" where
  "translate M g =
     \<lparr>p_sub = (\<lambda>k. if 0 < k then - q_G g (k - 1) else 0),
      p_diag = (\<lambda>k. q_H g k + (if 0 < k then q_G g (k - 1) else 0)
                             + (if k + 1 < M then q_G g k else 0)),
      p_super = (\<lambda>k. if k + 1 < M then - q_G g k else 0),
      p_rhs = q_X g\<rparr>"

text \<open>
  The system that the diffusion reduction works on when rows are coupled at distance
  \<open>h\<close>: every row counts its own coupling \<open>G(k)\<close>.
\<close>

definition coupled :: "nat \<Rightarrow> dsys \<Rightarrow> rowsys" where
  "coupled h g =
     \<lparr>p_sub = (\<lambda>k. - coupling_below g h k),
      p_diag = (\<lambda>k. q_H g k + coupling_below g h k + q_G g k),
      p_super = (\<lambda>k. - q_G g k),
      p_rhs = q_X g\<rparr>"

text \<open>Two systems with the same entries in the rows below \<open>M\<close>.\<close>

definition agree :: "nat \<Rightarrow> rowsys \<Rightarrow> rowsys \<Rightarrow> bool" where
  "agree M y z =
     (\<forall>k<M. p_sub y k = p_sub z k \<and> p_diag y k = p_diag z k \<and>
             p_super y k = p_super z k \<and> p_rhs y k = p_rhs z k)"

text \<open>The scratch of the general solvers that holds, in every lane, the explicit form
  of the diffusion system in that lane of a diffusion scratch.\<close>

definition translated :: "TriDiagDiffScratch \<Rightarrow> TriDiagScratch" where
  "translated s =
     \<lparr>sNRow = dNRow s,
      sDL = (\<lambda>k i. p_sub (translate (dNRow s) (dsys_of s i)) k),
      sD = (\<lambda>k i. p_diag (translate (dNRow s) (dsys_of s i)) k),
      sDU = (\<lambda>k i. p_super (translate (dNRow s) (dsys_of s i)) k),
      sX = (\<lambda>k i. p_rhs (translate (dNRow s) (dsys_of s i)) k)\<rparr>"

subsection \<open>Diffusion systems of a batch\<close>

text \<open>Diffusion system \<open>I\<close> of a batch held in the caller's arrays, and agreement of two
  diffusion systems in the rows below \<open>M\<close>.\<close>

definition row_dsys :: "'a store \<Rightarrow> 'a Array2DReal \<Rightarrow> 'a Array2DReal \<Rightarrow> 'a Array2DReal \<Rightarrow> nat \<Rightarrow> dsys" where
  "row_dsys h G H X I = \<lparr>q_G = rd h G I, q_H = rd h H I, q_X = rd h X I\<rparr>"


definition dagree :: "nat \<Rightarrow> dsys \<Rightarrow> dsys \<Rightarrow> bool" where
  "dagree M g g' = (\<forall>k<M. q_G g k = q_G g' k \<and> q_H g k = q_H g' k \<and> q_X g k = q_X g' k)"

text \<open>The sequential diffusion solver on a system.\<close>

definition thomas_diffusion :: "nat \<Rightarrow> dsys \<Rightarrow> nat \<Rightarrow> real" where
  "thomas_diffusion M g = spec_diff_x M (q_G g) (q_H g) (q_X g)"

subsection \<open>Concrete systems\<close>

text \<open>A scratch view whose every lane holds the rows \<open>xs\<close>.\<close>

definition rows :: "real list \<Rightarrow> view2" where
  "rows xs = (\<lambda>k i. xs ! k)"

text \<open>
  A diffusion system of four rows: its explicit form has the diagonal \<open>4\<close> and the
  off-diagonals \<open>-1\<close>, and the right-hand side belongs to the solution \<open>[1, 2, 3, 4]\<close>.
\<close>

definition diffusion4 :: TriDiagDiffScratch where
  "diffusion4 = \<lparr>dNRow = 4, dG = rows [1, 1, 1, 0], dH = rows [3, 2, 2, 3],
                  dX = rows [2, 4, 6, 13], dAlpha = rows [7, 7, 7, 7]\<rparr>"

text \<open>A system of one row, \<open>2 x = 6\<close>.\<close>

definition single_row :: TriDiagScratch where
  "single_row = \<lparr>sNRow = 1, sDL = rows [0], sD = rows [2], sDU = rows [0], sX = rows [6]\<rparr>"

text \<open>The system of the specification's concrete scenario.\<close>

definition scenario4 :: TriDiagScratch where
  "scenario4 = \<lparr>sNRow = 4, sDL = rows [0, 1, 1, 1], sD = rows [4, 4, 4, 4],
                 sDU = rows [1, 1, 1, 0], sX = rows [5, 6, 6, 5]\<rparr>"

text \<open>
  A strictly diagonally dominant system of three rows whose array entries outside the
  matrix, \<open>sub[0]\<close> and \<open>super[2]\<close>, are not zero; its right-hand side is \<open>A x\<close> for
  \<open>x = [1, 1, 1]\<close>.
\<close>

definition corners3 :: TriDiagScratch where
  "corners3 = \<lparr>sNRow = 3, sDL = rows [1, 1, 1], sD = rows [4, 4, 4],
                sDU = rows [1, 1, 1], sX = rows [5, 6, 5]\<rparr>"

text \<open>
  A diffusion system of two rows whose last coupling \<open>G(1)\<close> is not zero. Its explicit
  form, with one neighbour for each row, has the diagonal \<open>[2, 2]\<close> and the
  off-diagonals \<open>-1\<close>.
\<close>

definition diffusion2 :: TriDiagDiffScratch where
  "diffusion2 = \<lparr>dNRow = 2, dG = rows [1, 1], dH = rows [1, 1],
                  dX = rows [1, 1], dAlpha = rows [0, 0]\<rparr>"

text \<open>
  The caller's arrays of a batch that consists of the system of the concrete scenario:
  six arrays, told apart by their identities, each with the same rows for every
  system index.
\<close>

datatype array_id = A_DL | A_D | A_DU | A_X | A_G | A_H

definition view :: "array_id \<Rightarrow> nat \<Rightarrow> nat \<Rightarrow> array_id Array2DReal" where
  "view a n m = \<lparr>ident = a, extent0 = n, extent1 = m\<rparr>"

definition scenario_store :: "array_id store" where
  "scenario_store a =
     (case a of
        A_DL \<Rightarrow> (\<lambda>I k. [0, 1, 1, 1] ! k)
      | A_D \<Rightarrow> (\<lambda>I k. [4, 4, 4, 4] ! k)
      | A_DU \<Rightarrow> (\<lambda>I k. [1, 1, 1, 0] ! k)
      | A_X \<Rightarrow> (\<lambda>I k. [5, 6, 6, 5] ! k)
      | A_G \<Rightarrow> (\<lambda>I k. [1, 1, 1, 0] ! k)
      | A_H \<Rightarrow> (\<lambda>I k. [3, 2, 2, 3] ! k))"

section \<open>Properties\<close>

subsection \<open>Views and loops\<close>

lemma put_apply: "put v i j a k l = (if k = i \<and> l = j then a else v k l)"
  by (simp add: put_def)

lemma scratch_eqI:
  "sNRow a = sNRow b \<Longrightarrow> sDL a = sDL b \<Longrightarrow> sD a = sD b \<Longrightarrow> sDU a = sDU b \<Longrightarrow> sX a = sX b
   \<Longrightarrow> a = (b :: TriDiagScratch)"
  by simp

lemma Thomas_forward_inner:
  assumes "0 < K"
  shows "fold (Thomas_forward K) [0..<W] s =
    s\<lparr>sD := (\<lambda>k i. if k = K \<and> i < W then sD s K i - sDL s K i / sD s (K - 1) i * sDU s (K - 1) i else sD s k i),
      sX := (\<lambda>k i. if k = K \<and> i < W then sX s K i - sDL s K i / sD s (K - 1) i * sX s (K - 1) i else sX s k i)\<rparr>"
proof (induction W)
  case 0
  show ?case by simp
next
  case (Suc W)
  from assms have K: "K - 1 \<noteq> K" by simp
  show ?case
    unfolding upt_Suc_append [OF le0] fold_append o_apply Suc
    using K by (intro scratch_eqI; simp add: Thomas_forward_def Let_def put_apply fun_eq_iff)
qed

lemma Thomas_forward_outer:
  "fold (\<lambda>K. fold (Thomas_forward K) [0..<W]) [1..<Suc n] s =
    s\<lparr>sD := (\<lambda>k i. if k \<le> n \<and> i < W then thomas_d (lane (sDL s) i) (lane (sD s) i) (lane (sDU s) i) k else sD s k i),
      sX := (\<lambda>k i. if k \<le> n \<and> i < W then thomas_c (lane (sDL s) i) (lane (sD s) i) (lane (sDU s) i) (lane (sX s) i) k else sX s k i)\<rparr>"
proof (induction n)
  case 0
  show ?case by (intro scratch_eqI; simp add: fun_eq_iff lane_def)
next
  case (Suc n)
  have le: "1 \<le> Suc n" by simp
  show ?case
    unfolding upt_Suc_append [OF le] fold_append o_apply Suc
    by (intro scratch_eqI; simp add: Thomas_forward_inner fun_eq_iff lane_def)
qed

lemma Thomas_last_inner:
  "fold (Thomas_last M) [0..<W] s =
    s\<lparr>sX := (\<lambda>k i. if k = M - 1 \<and> i < W then sX s (M - 1) i / sD s (M - 1) i else sX s k i)\<rparr>"
proof (induction W)
  case 0
  show ?case by simp
next
  case (Suc W)
  show ?case
    unfolding upt_Suc_append [OF le0] fold_append o_apply Suc
    by (intro scratch_eqI; simp add: Thomas_last_def put_apply fun_eq_iff)
qed

lemma Thomas_backward_inner:
  "fold (Thomas_backward K) [0..<W] s =
    s\<lparr>sX := (\<lambda>k i. if k = K \<and> i < W then (sX s K i - sDU s K i * sX s (K + 1) i) / sD s K i else sX s k i)\<rparr>"
proof (induction W)
  case 0
  show ?case by simp
next
  case (Suc W)
  show ?case
    unfolding upt_Suc_append [OF le0] fold_append o_apply Suc
    by (intro scratch_eqI; simp add: Thomas_backward_def put_apply fun_eq_iff)
qed

lemma Thomas_backward_outer:
  assumes "j \<le> m"
  shows "fold (\<lambda>K. fold (Thomas_backward K) [0..<W]) (rev [j..<m]) (fold (Thomas_last (Suc m)) [0..<W] s) =
    s\<lparr>sX := (\<lambda>k i. if j \<le> k \<and> k \<le> m \<and> i < W
                   then back_subst (Suc m) (lane (sD s) i) (lane (sDU s) i) (lane (sX s) i) k
                   else sX s k i)\<rparr>"
  using assms
proof (induction j rule: inc_induct)
  case base
  show ?case
    by (intro scratch_eqI; auto simp add: Thomas_last_inner fun_eq_iff lane_def back_subst.simps [of "Suc m" _ _ _ m])
next
  case (step n)
  from step.hyps have n: "n < m" by simp
  have bs: "back_subst (Suc m) d u c n = (c n - u n * back_subst (Suc m) d u c (Suc n)) / d n" for d u c
    using n by (subst back_subst.simps) simp
  show ?case
    unfolding upt_conv_Cons [OF n] rev.simps fold_append o_apply step.IH
    using n by (intro scratch_eqI; simp add: Thomas_backward_inner fun_eq_iff lane_def bs)
qed

lemma ThomasSolver_solve_eq:
  assumes "sNRow s = Suc m"
  shows "ThomasSolver_solve W s = Inr (s\<lparr>
      sD := (\<lambda>k i. if k \<le> m \<and> i < W then thomas_d (lane (sDL s) i) (lane (sD s) i) (lane (sDU s) i) k else sD s k i),
      sX := (\<lambda>k i. if k \<le> m \<and> i < W
               then thomas_x (Suc m) (lane (sDL s) i) (lane (sD s) i) (lane (sDU s) i) (lane (sX s) i) k
               else sX s k i)\<rparr>)"
proof -
  have eq: "lane (\<lambda>k i. if k \<le> m \<and> i < W then f k i else g k i) i = (\<lambda>k. if k \<le> m then f k i else g k i)"
    if "i < W" for f g :: view2 and i
    using that by (simp add: lane_def fun_eq_iff)
  have bs: "back_subst (Suc m) (\<lambda>k. if k \<le> m then d k else d' k) u (\<lambda>k. if k \<le> m then c k else c' k) k
        = back_subst (Suc m) d u c k" if "k \<le> m" for d d' c c' u k
    using that
  proof (induction k rule: inc_induct)
    case base
    show ?case by (simp add: back_subst.simps [of _ _ _ _ m])
  next
    case (step n)
    then show ?case
      by (subst (1 2) back_subst.simps) simp
  qed
  show ?thesis
    unfolding ThomasSolver_solve_def Let_def assms
    apply (simp only: diff_Suc_1 Thomas_forward_outer Thomas_backward_outer [OF le0] nat.simps if_False)
    apply (rule arg_cong [where f = Inr])
    apply (intro scratch_eqI; simp add: fun_eq_iff thomas_x_def eq bs)
    done
qed

subsection \<open>The loops of the sequential diffusion solver\<close>

lemma dscratch_eqI:
  "dNRow a = dNRow b \<Longrightarrow> dG a = dG b \<Longrightarrow> dH a = dH b \<Longrightarrow> dX a = dX b \<Longrightarrow> dAlpha a = dAlpha b
   \<Longrightarrow> a = (b :: TriDiagDiffScratch)"
  by simp

lemma ThomasDiff_alpha0_inner:
  "fold ThomasDiff_alpha0 [0..<W] s =
    s\<lparr>dAlpha := (\<lambda>k i. if k = 0 \<and> i < W then 0 else dAlpha s k i)\<rparr>"
proof (induction W)
  case 0
  show ?case by simp
next
  case (Suc W)
  show ?case
    unfolding upt_Suc_append [OF le0] fold_append o_apply Suc
    by (intro dscratch_eqI; simp add: ThomasDiff_alpha0_def put_apply fun_eq_iff)
qed

lemma ThomasDiff_alpha_inner:
  assumes "0 < K"
  shows "fold (ThomasDiff_alpha K) [0..<W] s =
    s\<lparr>dAlpha := (\<lambda>k i. if k = K \<and> i < W
        then dG s (K - 1) i * (dH s (K - 1) i + dAlpha s (K - 1) i) /
             (dH s (K - 1) i + dAlpha s (K - 1) i + dG s (K - 1) i)
        else dAlpha s k i)\<rparr>"
proof (induction W)
  case 0
  show ?case by simp
next
  case (Suc W)
  from assms have K: "K - 1 \<noteq> K" by simp
  show ?case
    unfolding upt_Suc_append [OF le0] fold_append o_apply Suc
    using K by (intro dscratch_eqI; simp add: ThomasDiff_alpha_def put_apply fun_eq_iff)
qed

lemma ThomasDiff_alpha_outer:
  assumes "\<forall>i<W. dAlpha s 0 i = 0"
  shows "fold (\<lambda>K. fold (ThomasDiff_alpha K) [0..<W]) [1..<Suc n] s =
    s\<lparr>dAlpha := (\<lambda>k i. if k \<le> n \<and> i < W then spec_alpha (lane (dG s) i) (lane (dH s) i) k
                       else dAlpha s k i)\<rparr>"
proof (induction n)
  case 0
  show ?case using assms by (intro dscratch_eqI; simp add: fun_eq_iff lane_def)
next
  case (Suc n)
  have le: "1 \<le> Suc n" by simp
  show ?case
    unfolding upt_Suc_append [OF le] fold_append o_apply Suc
    by (intro dscratch_eqI; simp add: ThomasDiff_alpha_inner fun_eq_iff lane_def)
qed

lemma ThomasDiff_h0_inner:
  "fold ThomasDiff_h0 [0..<W] s =
    s\<lparr>dH := (\<lambda>k i. if k = 0 \<and> i < W then dH s 0 i + dG s 0 i else dH s k i)\<rparr>"
proof (induction W)
  case 0
  show ?case by simp
next
  case (Suc W)
  show ?case
    unfolding upt_Suc_append [OF le0] fold_append o_apply Suc
    by (intro dscratch_eqI; simp add: ThomasDiff_h0_def put_apply fun_eq_iff)
qed

lemma ThomasDiff_forward_inner:
  assumes "0 < K"
  shows "fold (ThomasDiff_forward K) [0..<W] s =
    s\<lparr>dH := (\<lambda>k i. if k = K \<and> i < W then dH s K i + (dAlpha s K i + dG s K i) else dH s k i),
      dX := (\<lambda>k i. if k = K \<and> i < W
               then dX s K i + dG s (K - 1) i / dH s (K - 1) i * dX s (K - 1) i else dX s k i)\<rparr>"
proof (induction W)
  case 0
  show ?case by simp
next
  case (Suc W)
  from assms have K: "K - 1 \<noteq> K" by simp
  show ?case
    unfolding upt_Suc_append [OF le0] fold_append o_apply Suc
    using K by (intro dscratch_eqI; simp add: ThomasDiff_forward_def Let_def put_apply fun_eq_iff)
qed

text \<open>The forward loop, started after the loops for \<open>Alpha\<close> and \<open>H(0)\<close>.\<close>

lemma ThomasDiff_forward_outer:
  assumes "\<forall>i<W. \<forall>k\<le>n. dAlpha s k i = spec_alpha (lane (dG s) i) (H0 i) k"
    and "\<forall>i<W. dH s 0 i = H0 i 0 + dG s 0 i"
    and "\<forall>i<W. \<forall>k. 0 < k \<longrightarrow> dH s k i = H0 i k"
  shows "fold (\<lambda>K. fold (ThomasDiff_forward K) [0..<W]) [1..<Suc n] s =
    s\<lparr>dH := (\<lambda>k i. if k \<le> n \<and> i < W then spec_H (lane (dG s) i) (H0 i) k else dH s k i),
      dX := (\<lambda>k i. if k \<le> n \<and> i < W then spec_rhs (lane (dG s) i) (H0 i) (lane (dX s) i) k
                    else dX s k i)\<rparr>"
  using assms
proof (induction n)
  case 0
  then show ?case by (intro dscratch_eqI; simp add: fun_eq_iff lane_def)
next
  case (Suc n)
  have le: "1 \<le> Suc n" by simp
  from Suc.prems have IH: "fold (\<lambda>K. fold (ThomasDiff_forward K) [0..<W]) [1..<Suc n] s =
    s\<lparr>dH := (\<lambda>k i. if k \<le> n \<and> i < W then spec_H (lane (dG s) i) (H0 i) k else dH s k i),
      dX := (\<lambda>k i. if k \<le> n \<and> i < W then spec_rhs (lane (dG s) i) (H0 i) (lane (dX s) i) k
                    else dX s k i)\<rparr>"
    by (intro Suc.IH) auto
  from Suc.prems show ?case
    unfolding upt_Suc_append [OF le] fold_append o_apply IH
    by (intro dscratch_eqI; simp add: ThomasDiff_forward_inner fun_eq_iff lane_def)
qed

lemma ThomasDiff_last_inner:
  "fold (ThomasDiff_last M) [0..<W] s =
    s\<lparr>dX := (\<lambda>k i. if k = M - 1 \<and> i < W then dX s (M - 1) i / dH s (M - 1) i else dX s k i)\<rparr>"
proof (induction W)
  case 0
  show ?case by simp
next
  case (Suc W)
  show ?case
    unfolding upt_Suc_append [OF le0] fold_append o_apply Suc
    by (intro dscratch_eqI; simp add: ThomasDiff_last_def put_apply fun_eq_iff)
qed

lemma ThomasDiff_backward_inner:
  "fold (ThomasDiff_backward K) [0..<W] s =
    s\<lparr>dX := (\<lambda>k i. if k = K \<and> i < W then (dX s K i + dG s K i * dX s (K + 1) i) / dH s K i
                    else dX s k i)\<rparr>"
proof (induction W)
  case 0
  show ?case by simp
next
  case (Suc W)
  show ?case
    unfolding upt_Suc_append [OF le0] fold_append o_apply Suc
    by (intro dscratch_eqI; simp add: ThomasDiff_backward_def put_apply fun_eq_iff)
qed

lemma ThomasDiff_backward_outer:
  assumes "j \<le> m"
  shows "fold (\<lambda>K. fold (ThomasDiff_backward K) [0..<W]) (rev [j..<m])
           (fold (ThomasDiff_last (Suc m)) [0..<W] s) =
    s\<lparr>dX := (\<lambda>k i. if j \<le> k \<and> k \<le> m \<and> i < W
                   then diff_back (Suc m) (lane (dH s) i) (lane (dG s) i) (lane (dX s) i) k
                   else dX s k i)\<rparr>"
  using assms
proof (induction j rule: inc_induct)
  case base
  show ?case
    by (intro dscratch_eqI; auto simp add: ThomasDiff_last_inner fun_eq_iff lane_def
        diff_back.simps [of "Suc m" _ _ _ m])
next
  case (step n)
  from step.hyps have n: "n < m" by simp
  have bs: "diff_back (Suc m) d u c n = (c n + u n * diff_back (Suc m) d u c (Suc n)) / d n" for d u c
    using n by (subst diff_back.simps) simp
  show ?case
    unfolding upt_conv_Cons [OF n] rev.simps fold_append o_apply step.IH
    using n by (intro dscratch_eqI; simp add: ThomasDiff_backward_inner fun_eq_iff lane_def bs)
qed

lemma diff_back_cong:
  assumes "k \<le> m"
  shows "diff_back (Suc m) (\<lambda>k. if k \<le> m then d k else d' k) u (\<lambda>k. if k \<le> m then c k else c' k) k
        = diff_back (Suc m) d u c k"
  using assms
proof (induction k rule: inc_induct)
  case base
  show ?case by (simp add: diff_back.simps [of _ _ _ _ m])
next
  case (step n)
  then show ?case
    by (subst (1 2) diff_back.simps) simp
qed

lemma ThomasDiffusionSolver_solve_eq:
  assumes "dNRow s = Suc m"
  shows "ThomasDiffusionSolver_solve W s = Inr (s\<lparr>
      dH := (\<lambda>k i. if k \<le> m \<and> i < W then spec_H (lane (dG s) i) (lane (dH s) i) k else dH s k i),
      dX := (\<lambda>k i. if k \<le> m \<and> i < W
               then spec_diff_x (Suc m) (lane (dG s) i) (lane (dH s) i) (lane (dX s) i) k
               else dX s k i),
      dAlpha := (\<lambda>k i. if k \<le> m \<and> i < W then spec_alpha (lane (dG s) i) (lane (dH s) i) k
               else dAlpha s k i)\<rparr>)"
proof -
  define s1 where "s1 = fold ThomasDiff_alpha0 [0..<W] s"
  define s2 where "s2 = fold (\<lambda>K. fold (ThomasDiff_alpha K) [0..<W]) [1..<Suc m] s1"
  define s3 where "s3 = fold ThomasDiff_h0 [0..<W] s2"
  define s4 where "s4 = fold (\<lambda>K. fold (ThomasDiff_forward K) [0..<W]) [1..<Suc m] s3"
  have s1: "s1 = s\<lparr>dAlpha := (\<lambda>k i. if k = 0 \<and> i < W then 0 else dAlpha s k i)\<rparr>"
    by (simp add: s1_def ThomasDiff_alpha0_inner)
  have s2: "s2 = s\<lparr>dAlpha := (\<lambda>k i. if k \<le> m \<and> i < W then spec_alpha (lane (dG s) i) (lane (dH s) i) k
                       else dAlpha s k i)\<rparr>"
    unfolding s2_def
    by (subst ThomasDiff_alpha_outer) (auto simp add: s1 fun_eq_iff intro!: dscratch_eqI)
  have s3: "s3 = s\<lparr>dH := (\<lambda>k i. if k = 0 \<and> i < W then dH s 0 i + dG s 0 i else dH s k i),
      dAlpha := (\<lambda>k i. if k \<le> m \<and> i < W then spec_alpha (lane (dG s) i) (lane (dH s) i) k
                       else dAlpha s k i)\<rparr>"
    unfolding s3_def ThomasDiff_h0_inner s2
    by (intro dscratch_eqI; simp add: fun_eq_iff)
  have s4: "s4 = s\<lparr>dH := (\<lambda>k i. if k \<le> m \<and> i < W then spec_H (lane (dG s) i) (lane (dH s) i) k else dH s k i),
      dX := (\<lambda>k i. if k \<le> m \<and> i < W then spec_rhs (lane (dG s) i) (lane (dH s) i) (lane (dX s) i) k
                    else dX s k i),
      dAlpha := (\<lambda>k i. if k \<le> m \<and> i < W then spec_alpha (lane (dG s) i) (lane (dH s) i) k
                       else dAlpha s k i)\<rparr>"
    unfolding s4_def
    apply (subst ThomasDiff_forward_outer [where ?H0.0 = "\<lambda>i. lane (dH s) i"])
       apply (simp add: s3)
      apply (simp add: s3 lane_def)
     apply (simp add: s3 lane_def)
    apply (intro dscratch_eqI; simp add: s3 fun_eq_iff)
    done
  have "ThomasDiffusionSolver_solve W s =
     Inr (fold (\<lambda>K. fold (ThomasDiff_backward K) [0..<W]) (rev [0..<m])
            (fold (ThomasDiff_last (Suc m)) [0..<W] s4))"
    by (simp add: ThomasDiffusionSolver_solve_def assms Let_def s4_def s3_def s2_def s1_def)
  also have "\<dots> = Inr (s4\<lparr>dX := (\<lambda>k i. if 0 \<le> k \<and> k \<le> m \<and> i < W
                   then diff_back (Suc m) (lane (dH s4) i) (lane (dG s4) i) (lane (dX s4) i) k
                   else dX s4 k i)\<rparr>)"
    by (simp only: ThomasDiff_backward_outer [OF le0])
  also have "\<dots> = Inr (s\<lparr>
      dH := (\<lambda>k i. if k \<le> m \<and> i < W then spec_H (lane (dG s) i) (lane (dH s) i) k else dH s k i),
      dX := (\<lambda>k i. if k \<le> m \<and> i < W
               then spec_diff_x (Suc m) (lane (dG s) i) (lane (dH s) i) (lane (dX s) i) k
               else dX s k i),
      dAlpha := (\<lambda>k i. if k \<le> m \<and> i < W then spec_alpha (lane (dG s) i) (lane (dH s) i) k
               else dAlpha s k i)\<rparr>)"
  proof -
    have eq: "lane (\<lambda>k i. if k \<le> m \<and> i < W then f k i else g k i) i = (\<lambda>k. if k \<le> m then f k i else g k i)"
      if "i < W" for f g :: view2 and i
      using that by (simp add: lane_def fun_eq_iff)
    show ?thesis
      apply (rule arg_cong [where f = Inr])
      apply (intro dscratch_eqI; simp add: s4 fun_eq_iff spec_diff_x_def eq diff_back_cong)
      done
  qed
  finally show ?thesis .
qed


subsection \<open>The levels of the cyclic reduction\<close>

lemma ceil_log2_from_spec:
  assumes "\<forall>j<L. 2 ^ j < n"
  shows "n \<le> 2 ^ ceil_log2_from L n \<and> (\<forall>j<ceil_log2_from L n. 2 ^ j < n)"
  using assms
proof (induction L n rule: ceil_log2_from.induct)
  case (1 L n)
  show ?case
  proof (cases "n \<le> 2 ^ L")
    case True
    with "1.prems" show ?thesis by simp
  next
    case False
    with "1.prems" have "\<forall>j<Suc L. 2 ^ j < n"
      by (auto simp: less_Suc_eq)
    from "1.IH" [OF False this] False show ?thesis
      by (subst (1 2) ceil_log2_from.simps) simp
  qed
qed

lemma ceil_log2_upper: "n \<le> 2 ^ ceil_log2 n"
  using ceil_log2_from_spec [of 0 n] by (simp add: ceil_log2_def)

lemma ceil_log2_lower: "j < ceil_log2 n \<Longrightarrow> 2 ^ j < n"
  using ceil_log2_from_spec [of 0 n] by (simp add: ceil_log2_def)

lemma ceil_log2_pos: "2 \<le> n \<Longrightarrow> 0 < ceil_log2 n"
  using ceil_log2_upper [of n] by (cases "ceil_log2 n") auto

lemma ceil_log2_stride:
  assumes "2 \<le> n"
  shows "2 ^ (ceil_log2 n - 1) < n" and "n \<le> 2 * 2 ^ (ceil_log2 n - 1)"
proof -
  from ceil_log2_pos [OF assms] obtain l where l: "ceil_log2 n = Suc l"
    by (cases "ceil_log2 n") auto
  show "2 ^ (ceil_log2 n - 1) < n"
    using ceil_log2_lower [of l n] by (simp add: l)
  show "n \<le> 2 * 2 ^ (ceil_log2 n - 1)"
    using ceil_log2_upper [of n] by (simp add: l)
qed

text \<open>The least level count is the rounded-up binary logarithm of the source.\<close>

lemma ceil_log2_is_ceiling_log:
  assumes "1 \<le> n"
  shows "int (ceil_log2 n) = \<lceil>log 2 (real n)\<rceil>"
proof (cases "ceil_log2 n")
  case 0
  with ceil_log2_upper [of n] assms have "n = 1" by simp
  with 0 show ?thesis by simp
next
  case (Suc l)
  from ceil_log2_lower [of l n] Suc have "2 ^ l < n" by simp
  then have "(2::real) ^ l < real n"
    by (metis of_nat_less_iff of_nat_numeral of_nat_power)
  then have lo: "real l < log 2 (real n)"
    using assms by (simp add: less_log_iff powr_realpow)
  from ceil_log2_upper [of n] have "real n \<le> 2 ^ Suc l"
    by (metis Suc of_nat_le_iff of_nat_numeral of_nat_power)
  also have "\<dots> = 2 powr real (Suc l)"
    by (rule powr_realpow [symmetric]) simp
  finally have "log 2 (real n) \<le> log 2 (2 powr real (Suc l))"
    using assms by (subst log_le_cancel_iff) simp_all
  then have hi: "log 2 (real n) \<le> real (Suc l)"
    by simp
  from lo hi have "\<lceil>log 2 (real n)\<rceil> = int (Suc l)"
    by (intro ceiling_unique) auto
  with Suc show ?thesis by simp
qed

lemma int_pow2: "(2::int) ^ n = int (2 ^ n)"
  by simp

lemma nat_below0: "nat (if int K - int h < 0 then 0 else int K - int h) = below h K"
  by (auto simp add: below_def)

lemma nat_above0:
  "K < M \<Longrightarrow> nat (if int K + int h \<ge> int M then int M - 1 else int K + int h) = above M h K"
  by (auto simp add: above_def)

lemma PCR_level_read_nat:
  assumes "K < sNRow s"
  shows "PCR_level_read Lev s K =
     (let Kmh = below (2 ^ (Lev - 1)) K;
          Kph = above (sNRow s) (2 ^ (Lev - 1)) K;
          alpha = - sDL s K 0 / sD s Kmh 0;
          gamma = - sDU s K 0 / sD s Kph 0
      in (sD s K 0 + alpha * sDU s Kmh 0 + gamma * sDL s Kph 0,
          sX s K 0 + alpha * sX s Kmh 0 + gamma * sX s Kph 0,
          alpha * sDL s Kmh 0,
          gamma * sDU s Kph 0))"
  unfolding PCR_level_read_def Let_def int_pow2 nat_below0 nat_above0 [OF assms] ..

lemma PCR_level_write_fold:
  "fold (\<lambda>K. PCR_level_write K (f K)) [0..<n] t =
     t\<lparr>sDL := (\<lambda>k i. if k < n \<and> i = 0 then fst (snd (snd (f k))) else sDL t k i),
       sD := (\<lambda>k i. if k < n \<and> i = 0 then fst (f k) else sD t k i),
       sDU := (\<lambda>k i. if k < n \<and> i = 0 then snd (snd (snd (f k))) else sDU t k i),
       sX := (\<lambda>k i. if k < n \<and> i = 0 then fst (snd (f k)) else sX t k i)\<rparr>"
proof (induction n)
  case 0
  show ?case by simp
next
  case (Suc n)
  show ?case
    unfolding upt_Suc_append [OF le0] fold_append o_apply Suc
    by (intro scratch_eqI; simp add: PCR_level_write_def case_prod_beta put_apply fun_eq_iff)
qed

lemma PCR_level_NRow: "sNRow (PCR_level Lev s) = sNRow s"
  by (simp add: PCR_level_def PCR_level_write_fold)

lemma PCR_level_sys:
  "sys_of (PCR_level Lev s) 0 = spec_pcr_level (sNRow s) Lev (sys_of s 0)"
  unfolding PCR_level_def PCR_level_write_fold
  by (simp add: sys_of_def spec_pcr_level_def lane_def fun_eq_iff PCR_level_read_nat Let_def)

lemma PCR_levels_NRow: "sNRow (fold PCR_level Ls s) = sNRow s"
  by (induction Ls arbitrary: s) (simp_all add: PCR_level_NRow)

lemma PCR_levels_sys:
  "sys_of (fold PCR_level Ls s) 0 = fold (spec_pcr_level (sNRow s)) Ls (sys_of s 0)"
  by (induction Ls arbitrary: s) (simp_all add: PCR_level_NRow PCR_level_sys)

lemma PCR_final_nat:
  "PCR_final (int st) K s =
     (if K + st < sNRow s \<or> st \<le> K then
        if K < sNRow s div 2 then
          s\<lparr>sX := put (put (sX s) K 0
                 ((sD s (K + st) 0 * sX s K 0 - sDU s K 0 * sX s (K + st) 0) /
                  (sD s K 0 * sD s (K + st) 0 - sDL s (K + st) 0 * sDU s K 0)))
               (K + st) 0
               ((- sDL s (K + st) 0 * sX s K 0 + sD s K 0 * sX s (K + st) 0) /
                  (sD s K 0 * sD s (K + st) 0 - sDL s (K + st) 0 * sDU s K 0))\<rparr>
        else s
      else s\<lparr>sX := put (sX s) K 0 (sX s K 0 / sD s K 0)\<rparr>)"
proof -
  have a: "(int K + int st < int (sNRow s) \<or> int K - int st \<ge> 0) = (K + st < sNRow s \<or> st \<le> K)"
    by auto
  have b: "(int K < int (sNRow s) div 2) = (K < sNRow s div 2)"
    by auto
  have c: "nat (int K + int st) = K + st"
    by simp
  show ?thesis
    unfolding PCR_final_def Let_def a b c by simp
qed

lemma PCR_final_fold:
  assumes M: "sNRow s = M" and st: "st < M" "M \<le> 2 * st" and n: "n \<le> M"
  shows "fold (PCR_final (int st)) [0..<n] s =
     s\<lparr>sX := (\<lambda>k i. if i = 0 \<and> (k < n \<or> (st \<le> k \<and> k - st < n)) \<and> k < M
                    then spec_pcr_x M st (sys_of s 0) k else sX s k i)\<rparr>"
  using n
proof (induction n)
  case 0
  show ?case by simp
next
  case (Suc n)
  then have n: "n < M" by simp
  let ?t = "s\<lparr>sX := (\<lambda>k i. if i = 0 \<and> (k < n \<or> (st \<le> k \<and> k - st < n)) \<and> k < M
                    then spec_pcr_x M st (sys_of s 0) k else sX s k i)\<rparr>"
  have IH: "fold (PCR_final (int st)) [0..<n] s = ?t"
    using Suc by simp
  consider (lower) "n + st < M" | (upper) "st \<le> n" | (single) "M \<le> n + st" "n < st"
    by linarith
  then have "PCR_final (int st) n ?t =
     s\<lparr>sX := (\<lambda>k i. if i = 0 \<and> (k < Suc n \<or> (st \<le> k \<and> k - st < Suc n)) \<and> k < M
                    then spec_pcr_x M st (sys_of s 0) k else sX s k i)\<rparr>"
  proof cases
    case lower
    with st have h: "n < M div 2" "n < st" by linarith+
    show ?thesis
      unfolding PCR_final_nat
      using lower h M st
      apply (intro scratch_eqI; simp add: put_apply fun_eq_iff)
      apply (auto simp add: spec_pcr_x_def spec_pcr_det_def sys_of_def lane_def)
      done
  next
    case upper
    with st have h: "\<not> n < M div 2" by linarith
    show ?thesis
      unfolding PCR_final_nat
      using upper h M st n
      apply (intro scratch_eqI; simp add: put_apply fun_eq_iff)
      apply (auto simp add: less_Suc_eq)
      done
  next
    case single
    show ?thesis
      unfolding PCR_final_nat
      using single M st n
      apply (intro scratch_eqI; simp add: put_apply fun_eq_iff)
      apply (auto simp add: spec_pcr_x_def sys_of_def lane_def less_Suc_eq)
      done
  qed
  then show ?case
    unfolding upt_Suc_append [OF le0] fold_append o_apply IH by simp
qed

lemma shl1_stride: "0 < L \<Longrightarrow> shl1 (int L - 1) = Inr (int (2 ^ (L - 1)))"
  by (simp add: shl1_def nat_diff_distrib')

lemma PCRSolver_solve_eq:
  assumes M: "sNRow s = M" and M2: "2 \<le> M"
  shows "PCRSolver_solve s =
     Inr ((fold PCR_level [1..<ceil_log2 M] s)
           \<lparr>sX := (\<lambda>k i. if i = 0 \<and> k < M then spec_pcr M (sys_of s 0) k
                          else sX (fold PCR_level [1..<ceil_log2 M] s) k i)\<rparr>)"
proof -
  define L where "L = ceil_log2 M"
  define s1 where "s1 = fold PCR_level [1..<L] s"
  have L: "0 < L" unfolding L_def by (rule ceil_log2_pos [OF M2])
  have st: "2 ^ (L - 1) < M" "M \<le> 2 * 2 ^ (L - 1)"
    unfolding L_def by (rule ceil_log2_stride [OF M2])+
  have M1: "sNRow s1 = M"
    by (simp add: s1_def PCR_levels_NRow M)
  have sys: "sys_of s1 0 = fold (spec_pcr_level M) [1..<L] (sys_of s 0)"
    by (simp add: s1_def PCR_levels_sys M)
  have "PCRSolver_solve s = Inr (fold (PCR_final (int (2 ^ (L - 1)))) [0..<M] s1)"
    using M2 by (simp add: PCRSolver_solve_def M Let_def L_def [symmetric] shl1_stride [OF L] s1_def)
  also have "fold (PCR_final (int (2 ^ (L - 1)))) [0..<M] s1 =
     s1\<lparr>sX := (\<lambda>k i. if i = 0 \<and> (k < M \<or> (2 ^ (L - 1) \<le> k \<and> k - 2 ^ (L - 1) < M)) \<and> k < M
                    then spec_pcr_x M (2 ^ (L - 1)) (sys_of s1 0) k else sX s1 k i)\<rparr>"
    by (rule PCR_final_fold [OF M1 st order_refl])
  also have "\<dots> = s1\<lparr>sX := (\<lambda>k i. if i = 0 \<and> k < M then spec_pcr M (sys_of s 0) k else sX s1 k i)\<rparr>"
    by (intro scratch_eqI; auto simp add: fun_eq_iff spec_pcr_def Let_def L_def [symmetric] sys)
  finally show ?thesis
    unfolding s1_def L_def .
qed

lemma PCRSolver_solve_spec:
  assumes "sNRow s = M" and "2 \<le> M"
  shows "\<exists>s'. PCRSolver_solve s = Inr s' \<and> sNRow s' = M \<and>
              (\<forall>k<M. sX s' k 0 = spec_pcr M (sys_of s 0) k)"
  by (simp add: PCRSolver_solve_eq [OF assms] PCR_levels_NRow assms)


subsection \<open>The sequential elimination solves diagonally dominant systems\<close>

lemma quot_le:
  fixes a s d :: real
  assumes "\<bar>s\<bar> < \<bar>d\<bar>"
  shows "\<bar>a / d * s\<bar> \<le> \<bar>a\<bar>"
proof -
  from assms have d: "0 < \<bar>d\<bar>" by linarith
  have "\<bar>a / d * s\<bar> = \<bar>a\<bar> * (\<bar>s\<bar> / \<bar>d\<bar>)"
    by (simp add: abs_mult)
  also have "\<dots> \<le> \<bar>a\<bar> * 1"
    using assms d by (intro mult_left_mono) simp_all
  finally show ?thesis by simp
qed

lemma eliminate_row:
  fixes a b u c d xj xk t r :: real
  assumes d: "d \<noteq> 0" and prev: "d * xj + u * xk = c"
  shows "(b - a / d * u) * xk + t = r - a / d * c \<longleftrightarrow> a * xj + b * xk + t = r"
proof -
  have "a / d * c = a / d * (d * xj + u * xk)"
    by (simp only: prev)
  also have "\<dots> = a * xj + a / d * u * xk"
    using d by (simp add: field_simps)
  finally have "a / d * c = a * xj + a / d * u * xk" .
  then show ?thesis
    by (simp add: algebra_simps)
qed

lemma dominantD:
  "dominant M y \<Longrightarrow> k < M \<Longrightarrow>
   (if 0 < k then \<bar>p_sub y k\<bar> else 0) + (if k + 1 < M then \<bar>p_super y k\<bar> else 0) < \<bar>p_diag y k\<bar>"
  by (simp add: dominant_def)

lemma solvesD:
  "solves M y x \<Longrightarrow> k < M \<Longrightarrow>
   (if 0 < k then p_sub y k * x (k - 1) else 0) + p_diag y k * x k +
     (if k + 1 < M then p_super y k * x (k + 1) else 0) = p_rhs y k"
  by (simp add: solves_def matvec_def)

lemma thomas_pivot:
  assumes dom: "dominant M y" and k: "k < M"
  shows "(if k + 1 < M then \<bar>p_super y k\<bar> else 0) < \<bar>thomas_d (p_sub y) (p_diag y) (p_super y) k\<bar>"
  using k
proof (induction k)
  case 0
  with dominantD [OF dom, of 0] show ?case by simp
next
  case (Suc k)
  define q where "q = p_sub y (Suc k) / thomas_d (p_sub y) (p_diag y) (p_super y) k * p_super y k"
  from Suc have IH: "\<bar>p_super y k\<bar> < \<bar>thomas_d (p_sub y) (p_diag y) (p_super y) k\<bar>"
    by simp
  from dominantD [OF dom Suc.prems]
  have row: "\<bar>p_sub y (Suc k)\<bar> + (if Suc k + 1 < M then \<bar>p_super y (Suc k)\<bar> else 0) < \<bar>p_diag y (Suc k)\<bar>"
    by simp
  have q: "\<bar>q\<bar> \<le> \<bar>p_sub y (Suc k)\<bar>"
    unfolding q_def by (rule quot_le [OF IH])
  have eq: "thomas_d (p_sub y) (p_diag y) (p_super y) (Suc k) = p_diag y (Suc k) - q"
    by (simp add: q_def)
  from row q show ?case
    unfolding eq by (cases "Suc k + 1 < M"; simp; linarith)
qed

lemma thomas_pivot_nonzero:
  "dominant M y \<Longrightarrow> k < M \<Longrightarrow> thomas_d (p_sub y) (p_diag y) (p_super y) k \<noteq> 0"
  using thomas_pivot [of M y k] by (auto split: if_splits)

text \<open>Elimination keeps the solutions: the reduced rows hold for every solution.\<close>

lemma thomas_reduced_rows:
  assumes dom: "dominant M y" and x: "solves M y x" and k: "k < M"
  shows "thomas_d (p_sub y) (p_diag y) (p_super y) k * x k +
         (if k + 1 < M then p_super y k * x (k + 1) else 0) =
         thomas_c (p_sub y) (p_diag y) (p_super y) (p_rhs y) k"
  using k
proof (induction k)
  case 0
  with solvesD [OF x, of 0] show ?case by simp
next
  case (Suc k)
  let ?d = "thomas_d (p_sub y) (p_diag y) (p_super y)"
  let ?c = "thomas_c (p_sub y) (p_diag y) (p_super y) (p_rhs y)"
  from Suc have IH: "?d k * x k + p_super y k * x (Suc k) = ?c k" by simp
  from dom Suc.prems have d: "?d k \<noteq> 0" by (intro thomas_pivot_nonzero [of M]) simp_all
  from solvesD [OF x Suc.prems] have row: "p_sub y (Suc k) * x k + p_diag y (Suc k) * x (Suc k) +
      (if Suc k + 1 < M then p_super y (Suc k) * x (Suc k + 1) else 0) = p_rhs y (Suc k)"
    by simp
  from row show ?case
    unfolding thomas_d.simps thomas_c.simps by (simp only: eliminate_row [OF d IH])
qed

lemma back_subst_solution:
  assumes d: "\<forall>k<M. d k \<noteq> 0"
    and rows: "\<forall>k<M. d k * x k + (if k + 1 < M then u k * x (k + 1) else 0) = c k"
    and k: "k < M"
  shows "back_subst M d u c k = x k"
proof -
  obtain m where m: "M = Suc m" using k by (cases M) auto
  from k have "k \<le> m" by (simp add: m)
  then show ?thesis
  proof (induction k rule: inc_induct)
    case base
    from rows [rule_format, of m] d have "d m * x m = c m" "d m \<noteq> 0" by (simp_all add: m)
    moreover have "M \<le> Suc m" by (simp add: m)
    ultimately show ?case
      by (subst back_subst.simps) (simp add: field_simps)
  next
    case (step n)
    from step.hyps have n: "n < m" by simp
    with rows [rule_format, of n] d have "d n * x n + u n * x (Suc n) = c n" "d n \<noteq> 0"
      by (simp_all add: m)
    moreover have "\<not> M \<le> Suc n" using n by (simp add: m)
    ultimately show ?case
      by (subst back_subst.simps) (simp add: step.IH field_simps)
  qed
qed

lemma thomas_round_trip:
  assumes "dominant M y" and "solves M y x" and "k < M"
  shows "thomas M y k = x k"
  unfolding thomas_def thomas_x_def
proof (rule back_subst_solution [OF _ _ assms(3)])
  show "\<forall>k<M. thomas_d (p_sub y) (p_diag y) (p_super y) k \<noteq> 0"
    using assms(1) by (simp add: thomas_pivot_nonzero)
  show "\<forall>k<M. thomas_d (p_sub y) (p_diag y) (p_super y) k * x k +
         (if k + 1 < M then p_super y k * x (k + 1) else 0) =
         thomas_c (p_sub y) (p_diag y) (p_super y) (p_rhs y) k"
    by (intro allI impI thomas_reduced_rows assms)
qed

text \<open>Back-substitution solves the reduced rows it is given.\<close>

lemma back_subst_rows:
  assumes d: "\<forall>k<M. d k \<noteq> 0" and k: "k < M"
  shows "d k * back_subst M d u c k + (if k + 1 < M then u k * back_subst M d u c (k + 1) else 0) = c k"
  using d k by (subst back_subst.simps) (auto simp add: field_simps not_less)

lemma thomas_sound:
  assumes dom: "dominant M y"
  shows "solves M y (thomas M y)"
  unfolding solves_def
proof (intro allI impI)
  fix k assume k: "k < M"
  let ?d = "thomas_d (p_sub y) (p_diag y) (p_super y)"
  let ?c = "thomas_c (p_sub y) (p_diag y) (p_super y) (p_rhs y)"
  let ?x = "thomas M y"
  have d: "\<forall>k<M. ?d k \<noteq> 0"
    using dom by (simp add: thomas_pivot_nonzero)
  have rows: "?d j * ?x j + (if j + 1 < M then p_super y j * ?x (j + 1) else 0) = ?c j" if "j < M" for j
    unfolding thomas_def thomas_x_def by (rule back_subst_rows [OF d that])
  show "matvec M y ?x k = p_rhs y k"
  proof (cases k)
    case 0
    with rows [of 0] k show ?thesis by (simp add: matvec_def)
  next
    case (Suc j)
    with k have j: "j < M" "Suc j < M" by simp_all
    from d j have dj: "?d j \<noteq> 0" by simp
    from rows [OF j(1)] j have rj: "?d j * ?x j + p_super y j * ?x (Suc j) = ?c j" by simp
    from rows [OF j(2)] have rk: "?d (Suc j) * ?x (Suc j) +
        (if Suc j + 1 < M then p_super y (Suc j) * ?x (Suc j + 1) else 0) = ?c (Suc j)" by simp
    from rk have "p_sub y (Suc j) * ?x j + p_diag y (Suc j) * ?x (Suc j) +
        (if Suc j + 1 < M then p_super y (Suc j) * ?x (Suc j + 1) else 0) = p_rhs y (Suc j)"
      unfolding thomas_d.simps thomas_c.simps by (simp only: eliminate_row [OF dj rj])
    then show ?thesis
      unfolding matvec_def Suc by simp
  qed
qed


subsection \<open>The cyclic reduction solves diagonally dominant systems\<close>

lemma quot_sum_le:
  fixes a p q d :: real
  assumes "\<bar>p\<bar> + \<bar>q\<bar> < \<bar>d\<bar>"
  shows "\<bar>- a / d * p\<bar> + \<bar>- a / d * q\<bar> \<le> \<bar>a\<bar>"
proof -
  from assms have d: "0 < \<bar>d\<bar>" by linarith
  have "\<bar>- a / d * p\<bar> + \<bar>- a / d * q\<bar> = \<bar>a\<bar> * \<bar>p\<bar> / \<bar>d\<bar> + \<bar>a\<bar> * \<bar>q\<bar> / \<bar>d\<bar>"
    by (simp add: abs_mult)
  also have "\<dots> = \<bar>a\<bar> * ((\<bar>p\<bar> + \<bar>q\<bar>) / \<bar>d\<bar>)"
    by (simp add: add_divide_distrib distrib_left)
  also have "\<dots> \<le> \<bar>a\<bar> * 1"
    using assms d by (intro mult_left_mono) simp_all
  finally show ?thesis by simp
qed

lemma dominance_step:
  fixes a b c am bm cm ap bp cp :: real
  assumes k: "\<bar>a\<bar> + \<bar>c\<bar> < \<bar>b\<bar>"
    and m: "\<bar>am\<bar> + \<bar>cm\<bar> < \<bar>bm\<bar>"
    and p: "\<bar>ap\<bar> + \<bar>cp\<bar> < \<bar>bp\<bar>"
  shows "\<bar>- a / bm * am\<bar> + \<bar>- c / bp * cp\<bar> < \<bar>b + - a / bm * cm + - c / bp * ap\<bar>"
proof -
  define t1 where "t1 = - a / bm * am"
  define t2 where "t2 = - a / bm * cm"
  define t3 where "t3 = - c / bp * ap"
  define t4 where "t4 = - c / bp * cp"
  have 1: "\<bar>t1\<bar> + \<bar>t2\<bar> \<le> \<bar>a\<bar>"
    unfolding t1_def t2_def by (rule quot_sum_le [OF m])
  have 2: "\<bar>t3\<bar> + \<bar>t4\<bar> \<le> \<bar>c\<bar>"
    unfolding t3_def t4_def by (rule quot_sum_le [OF p])
  have 3: "\<bar>b\<bar> - \<bar>t2\<bar> - \<bar>t3\<bar> \<le> \<bar>b + t2 + t3\<bar>"
    by linarith
  from 1 2 3 k have "\<bar>t1\<bar> + \<bar>t4\<bar> < \<bar>b + t2 + t3\<bar>"
    by linarith
  then show ?thesis
    by (simp only: t1_def t2_def t3_def t4_def)
qed

lemma below_less: "k < M \<Longrightarrow> below h k < M"
  by (auto simp add: below_def)

lemma above_less: "k < M \<Longrightarrow> above M h k < M"
  by (auto simp add: above_def)

lemma pcr_level_dominant:
  assumes "dominant_all M y"
  shows "dominant_all M (spec_pcr_level M lev y)"
  unfolding dominant_all_def
proof (intro allI impI)
  fix k assume k: "k < M"
  from assms k have 1: "\<bar>p_sub y k\<bar> + \<bar>p_super y k\<bar> < \<bar>p_diag y k\<bar>"
    by (simp add: dominant_all_def)
  from assms below_less [OF k]
  have 2: "\<bar>p_sub y (below (2 ^ (lev - 1)) k)\<bar> + \<bar>p_super y (below (2 ^ (lev - 1)) k)\<bar>
           < \<bar>p_diag y (below (2 ^ (lev - 1)) k)\<bar>"
    by (simp add: dominant_all_def)
  from assms above_less [OF k]
  have 3: "\<bar>p_sub y (above M (2 ^ (lev - 1)) k)\<bar> + \<bar>p_super y (above M (2 ^ (lev - 1)) k)\<bar>
           < \<bar>p_diag y (above M (2 ^ (lev - 1)) k)\<bar>"
    by (simp add: dominant_all_def)
  from dominance_step [OF 1 2 3] k
  show "\<bar>p_sub (spec_pcr_level M lev y) k\<bar> + \<bar>p_super (spec_pcr_level M lev y) k\<bar>
        < \<bar>p_diag (spec_pcr_level M lev y) k\<bar>"
    by (simp add: spec_pcr_level_def Let_def)
qed

lemma pcr_level_zero:
  assumes z: "zero_at M h y" and h: "h = 2 ^ (lev - 1)"
  shows "zero_at M (2 * h) (spec_pcr_level M lev y)"
  unfolding zero_at_def
proof (intro allI impI conjI)
  fix k assume k: "k < M" and "k < 2 * h"
  show "p_sub (spec_pcr_level M lev y) k = 0"
  proof (cases "k < h")
    case True
    with z k have "p_sub y k = 0" by (simp add: zero_at_def)
    with k show ?thesis by (simp add: spec_pcr_level_def Let_def)
  next
    case False
    with \<open>k < 2 * h\<close> have "below h k < h" by (simp add: below_def)
    with z below_less [OF k] have "p_sub y (below h k) = 0" by (simp add: zero_at_def)
    with k show ?thesis by (simp add: spec_pcr_level_def Let_def h)
  qed
next
  fix k assume k: "k < M" and k2: "M \<le> k + 2 * h"
  show "p_super (spec_pcr_level M lev y) k = 0"
  proof (cases "M \<le> k + h")
    case True
    with z k have "p_super y k = 0" by (simp add: zero_at_def)
    with k show ?thesis by (simp add: spec_pcr_level_def Let_def)
  next
    case False
    with k2 have "M \<le> above M h k + h" by (simp add: above_def)
    with z above_less [OF k] have "p_super y (above M h k) = 0" by (simp add: zero_at_def)
    with k show ?thesis by (simp add: spec_pcr_level_def Let_def h)
  qed
qed

lemma neighbour_algebra:
  fixes a bm t xm w rm :: real
  assumes "bm \<noteq> 0" and "t + bm * xm + w = rm"
  shows "a * xm + (- a / bm) * rm = (- a / bm) * t + (- a / bm) * w"
proof -
  have "(- a / bm) * rm = (- a / bm) * (t + bm * xm + w)"
    by (simp only: assms(2))
  also have "\<dots> = (- a / bm) * t + (- a / bm) * w - a * xm"
    using assms(1) by (simp add: field_simps)
  finally show ?thesis by simp
qed

lemma dominant_all_nonzero: "dominant_all M y \<Longrightarrow> k < M \<Longrightarrow> p_diag y k \<noteq> 0"
  unfolding dominant_all_def by (auto dest!: spec [of _ k])

lemma solves_atD:
  "solves_at M h y x \<Longrightarrow> k < M \<Longrightarrow>
   (if h \<le> k then p_sub y k * x (k - h) else 0) + p_diag y k * x k +
     (if k + h < M then p_super y k * x (k + h) else 0) = p_rhs y k"
  by (simp add: solves_at_def)

lemma pcr_level_solves:
  assumes s: "solves_at M h y x" and z: "zero_at M h y" and d: "dominant_all M y"
    and h: "h = 2 ^ (lev - 1)"
  shows "solves_at M (2 * h) (spec_pcr_level M lev y) x"
  unfolding solves_at_def
proof (intro allI impI)
  fix k assume k: "k < M"
  define alpha where "alpha = - p_sub y k / p_diag y (below h k)"
  define gamma where "gamma = - p_super y k / p_diag y (above M h k)"
  have lower: "(if h \<le> k then p_sub y k * x (k - h) else 0) + alpha * p_rhs y (below h k) =
      (if 2 * h \<le> k then alpha * p_sub y (below h k) * x (k - 2 * h) else 0) +
      alpha * p_super y (below h k) * x k"
  proof (cases "h \<le> k")
    case True
    then have km: "below h k = k - h" by (simp add: below_def)
    from True k have kmM: "k - h < M" by simp
    from True have eqs: "(h \<le> k - h) = (2 * h \<le> k)" "k - h - h = k - 2 * h" "k - h + h = k"
      by auto
    from k have kM: "(k < M) = True" by simp
    from solves_atD [OF s kmM]
    have row: "(if 2 * h \<le> k then p_sub y (k - h) * x (k - 2 * h) else 0) +
        p_diag y (k - h) * x (k - h) + p_super y (k - h) * x k = p_rhs y (k - h)"
      unfolding eqs kM if_True .
    from d kmM have nz: "p_diag y (k - h) \<noteq> 0" by (rule dominant_all_nonzero)
    have alpha': "- p_sub y k / p_diag y (k - h) = alpha"
      by (simp add: alpha_def km)
    from neighbour_algebra [OF nz row, of "p_sub y k"]
    have "p_sub y k * x (k - h) + alpha * p_rhs y (k - h) =
        alpha * (if 2 * h \<le> k then p_sub y (k - h) * x (k - 2 * h) else 0) +
        alpha * (p_super y (k - h) * x k)"
      unfolding alpha' .
    with True show ?thesis
      by (simp add: km mult.assoc)
  next
    case False
    with z k have "p_sub y k = 0" by (simp add: zero_at_def)
    with False show ?thesis by (simp add: alpha_def)
  qed
  have upper: "(if k + h < M then p_super y k * x (k + h) else 0) + gamma * p_rhs y (above M h k) =
      gamma * p_sub y (above M h k) * x k +
      (if k + 2 * h < M then gamma * p_super y (above M h k) * x (k + 2 * h) else 0)"
  proof (cases "k + h < M")
    case True
    then have kp: "above M h k = k + h" by (simp add: above_def)
    have eqs: "k + h + h = k + 2 * h" "k + h - h = k" "(h \<le> k + h) = True"
      by auto
    from solves_atD [OF s True]
    have row: "p_sub y (k + h) * x k + p_diag y (k + h) * x (k + h) +
        (if k + 2 * h < M then p_super y (k + h) * x (k + 2 * h) else 0) = p_rhs y (k + h)"
      unfolding eqs if_True .
    then have row': "(if k + 2 * h < M then p_super y (k + h) * x (k + 2 * h) else 0) +
        p_diag y (k + h) * x (k + h) + p_sub y (k + h) * x k = p_rhs y (k + h)"
      by simp
    from d True have nz: "p_diag y (k + h) \<noteq> 0" by (rule dominant_all_nonzero)
    have gamma': "- p_super y k / p_diag y (k + h) = gamma"
      by (simp add: gamma_def kp)
    from neighbour_algebra [OF nz row', of "p_super y k"]
    have "p_super y k * x (k + h) + gamma * p_rhs y (k + h) =
        gamma * (if k + 2 * h < M then p_super y (k + h) * x (k + 2 * h) else 0) +
        gamma * (p_sub y (k + h) * x k)"
      unfolding gamma' .
    with True show ?thesis
      by (simp add: kp mult.assoc)
  next
    case False
    with z k have "p_super y k = 0" by (simp add: zero_at_def)
    with False show ?thesis by (simp add: gamma_def)
  qed
  have new: "p_sub (spec_pcr_level M lev y) k = alpha * p_sub y (below h k)"
    "p_diag (spec_pcr_level M lev y) k =
       p_diag y k + alpha * p_super y (below h k) + gamma * p_sub y (above M h k)"
    "p_super (spec_pcr_level M lev y) k = gamma * p_super y (above M h k)"
    "p_rhs (spec_pcr_level M lev y) k =
       p_rhs y k + alpha * p_rhs y (below h k) + gamma * p_rhs y (above M h k)"
    using k by (simp_all add: spec_pcr_level_def Let_def h alpha_def gamma_def)
  from solves_atD [OF s k] lower upper
  show "(if 2 * h \<le> k then p_sub (spec_pcr_level M lev y) k * x (k - 2 * h) else 0) +
        p_diag (spec_pcr_level M lev y) k * x k +
        (if k + 2 * h < M then p_super (spec_pcr_level M lev y) k * x (k + 2 * h) else 0) =
        p_rhs (spec_pcr_level M lev y) k"
    unfolding new by (simp add: algebra_simps split: if_splits)
qed

lemma pcr_levels_inv:
  assumes "solves_at M 1 y x" and "zero_at M 1 y" and "dominant_all M y"
  shows "solves_at M (2 ^ n) (fold (spec_pcr_level M) [1..<Suc n] y) x \<and>
         zero_at M (2 ^ n) (fold (spec_pcr_level M) [1..<Suc n] y) \<and>
         dominant_all M (fold (spec_pcr_level M) [1..<Suc n] y)"
proof (induction n)
  case 0
  from assms show ?case by simp
next
  case (Suc n)
  have le: "1 \<le> Suc n" by simp
  have h: "(2::nat) ^ n = 2 ^ (Suc n - 1)" by simp
  from Suc show ?case
    unfolding upt_Suc_append [OF le] fold_append o_apply fold.simps id_apply power_Suc
    by (intro conjI pcr_level_solves [OF _ _ _ h] pcr_level_zero [OF _ h] pcr_level_dominant) simp_all
qed

lemma cramer2:
  fixes b1 c1 a2 b2 r1 r2 x1 x2 :: real
  assumes 1: "b1 * x1 + c1 * x2 = r1" and 2: "a2 * x1 + b2 * x2 = r2"
    and det: "b1 * b2 - a2 * c1 \<noteq> 0"
  shows "(b2 * r1 - c1 * r2) / (b1 * b2 - a2 * c1) = x1"
    and "(- a2 * r1 + b1 * r2) / (b1 * b2 - a2 * c1) = x2"
proof -
  have "b2 * r1 - c1 * r2 = (b1 * b2 - a2 * c1) * x1"
    unfolding 1 [symmetric] 2 [symmetric] by (simp add: algebra_simps)
  with det show "(b2 * r1 - c1 * r2) / (b1 * b2 - a2 * c1) = x1"
    by simp
  have "- a2 * r1 + b1 * r2 = (b1 * b2 - a2 * c1) * x2"
    unfolding 1 [symmetric] 2 [symmetric] by (simp add: algebra_simps)
  with det show "(- a2 * r1 + b1 * r2) / (b1 * b2 - a2 * c1) = x2"
    by simp
qed

lemma det_nonzero:
  fixes b1 c1 a2 b2 :: real
  assumes "\<bar>c1\<bar> < \<bar>b1\<bar>" and "\<bar>a2\<bar> < \<bar>b2\<bar>"
  shows "b1 * b2 - a2 * c1 \<noteq> 0"
proof
  assume "b1 * b2 - a2 * c1 = 0"
  then have "\<bar>b1\<bar> * \<bar>b2\<bar> = \<bar>a2\<bar> * \<bar>c1\<bar>"
    by (simp add: abs_mult [symmetric])
  moreover have "\<bar>a2\<bar> * \<bar>c1\<bar> < \<bar>b2\<bar> * \<bar>b1\<bar>"
    using assms by (intro mult_strict_mono') simp_all
  ultimately show False by (simp add: mult.commute)
qed

lemma dominant_allD:
  "dominant_all M y \<Longrightarrow> k < M \<Longrightarrow> \<bar>p_sub y k\<bar> + \<bar>p_super y k\<bar> < \<bar>p_diag y k\<bar>"
  by (simp add: dominant_all_def)

lemma pcr_final_solution:
  assumes s: "solves_at M st y x" and d: "dominant_all M y"
    and st: "st < M" "M \<le> 2 * st" and k: "k < M"
  shows "spec_pcr_x M st y k = x k"
proof -
  have pair: "(p_diag y (j + st) * p_rhs y j - p_super y j * p_rhs y (j + st)) / spec_pcr_det st y j = x j \<and>
      (- p_sub y (j + st) * p_rhs y j + p_diag y j * p_rhs y (j + st)) / spec_pcr_det st y j = x (j + st)"
    if j: "j + st < M" for j
  proof -
    from j st have j': "j < M" "\<not> st \<le> j" "\<not> j + st + st < M" "(st \<le> j + st) = True" "j + st - st = j"
      by simp_all
    from solves_atD [OF s j'(1)] j j'
    have 1: "p_diag y j * x j + p_super y j * x (j + st) = p_rhs y j"
      by simp
    from solves_atD [OF s j]
    have 2: "p_sub y (j + st) * x j + p_diag y (j + st) * x (j + st) = p_rhs y (j + st)"
      using j' by simp
    from dominant_allD [OF d j'(1)] dominant_allD [OF d j]
    have "p_diag y j * p_diag y (j + st) - p_sub y (j + st) * p_super y j \<noteq> 0"
      by (intro det_nonzero) linarith+
    from cramer2 [OF 1 2 this] show ?thesis
      by (simp add: spec_pcr_det_def)
  qed
  consider (lower) "k + st < M" | (upper) "st \<le> k" | (single) "M \<le> k + st" "k < st"
    by linarith
  then show ?thesis
  proof cases
    case lower
    with st have "k < M div 2" by linarith
    with lower pair [OF lower] show ?thesis
      by (simp add: spec_pcr_x_def)
  next
    case upper
    with k have j: "k - st + st < M" by simp
    from upper st k have c: "\<not> k + st < M" "k - st < M div 2" by linarith+
    from pair [OF j] upper c show ?thesis
      by (simp add: spec_pcr_x_def)
  next
    case single
    from solves_atD [OF s k] single have "p_diag y k * x k = p_rhs y k"
      by simp
    moreover from d k have "p_diag y k \<noteq> 0" by (rule dominant_all_nonzero)
    ultimately show ?thesis
      using single by (simp add: spec_pcr_x_def field_simps)
  qed
qed

lemma solves_at_1: "solves_at M 1 y x = solves M y x"
  by (simp add: solves_at_def solves_def matvec_def Suc_le_eq)

lemma zero_at_1: "0 < M \<Longrightarrow> zero_at M 1 y = boundary_zero M y"
  unfolding zero_at_def boundary_zero_def
proof (intro iffI conjI allI impI)
  assume a: "\<forall>k<M. (k < 1 \<longrightarrow> p_sub y k = 0) \<and> (M \<le> k + 1 \<longrightarrow> p_super y k = 0)" and M: "0 < M"
  from a M show "p_sub y 0 = 0" by simp
  from a [rule_format, of "M - 1"] M show "p_super y (M - 1) = 0" by simp
next
  fix k assume "p_sub y 0 = 0 \<and> p_super y (M - 1) = 0" "k < M" "k < 1"
  then show "p_sub y k = 0" by simp
next
  fix k assume b: "p_sub y 0 = 0 \<and> p_super y (M - 1) = 0" and k: "k < M" "M \<le> k + 1"
  then have "k = M - 1" by simp
  with b show "p_super y k = 0" by simp
qed

lemma dominant_all_boundary:
  assumes "dominant M y" and "boundary_zero M y"
  shows "dominant_all M y"
  unfolding dominant_all_def
proof (intro allI impI)
  fix k assume k: "k < M"
  have "k = M - 1" if "\<not> k + 1 < M"
    using that k by simp
  with assms(2) have "\<not> 0 < k \<Longrightarrow> p_sub y k = 0" "\<not> k + 1 < M \<Longrightarrow> p_super y k = 0"
    by (simp_all add: boundary_zero_def)
  with dominantD [OF assms(1) k] show "\<bar>p_sub y k\<bar> + \<bar>p_super y k\<bar> < \<bar>p_diag y k\<bar>"
    by (cases "0 < k"; cases "k + 1 < M"; simp)
qed

lemma pcr_round_trip:
  assumes dom: "dominant M y" and bz: "boundary_zero M y" and x: "solves M y x"
    and M: "2 \<le> M" and k: "k < M"
  shows "spec_pcr M y k = x k"
proof -
  from ceil_log2_pos [OF M] obtain n where n: "ceil_log2 M = Suc n"
    by (cases "ceil_log2 M") auto
  from M have M0: "0 < M" by simp
  have a: "solves_at M 1 y x"
    using x by (simp only: solves_at_1)
  have b: "zero_at M 1 y"
    using bz by (simp only: zero_at_1 [OF M0])
  have c: "dominant_all M y"
    using dom bz by (rule dominant_all_boundary)
  note inv = pcr_levels_inv [OF a b c, of n]
  from ceil_log2_stride [OF M] have st: "2 ^ n < M" "M \<le> 2 * 2 ^ n"
    by (simp_all add: n)
  from inv st k show ?thesis
    unfolding spec_pcr_def Let_def n diff_Suc_1
    by (intro pcr_final_solution) simp_all
qed

subsection \<open>The solvers on scratch, row by row\<close>

lemma sys_of_simps:
  "p_sub (sys_of s i) k = sDL s k i" "p_diag (sys_of s i) k = sD s k i"
  "p_super (sys_of s i) k = sDU s k i" "p_rhs (sys_of s i) k = sX s k i"
  by (simp_all add: sys_of_def lane_def)

lemma ThomasSolver_solve_thomas:
  assumes "sNRow s = M" and "1 \<le> M"
  shows "\<exists>s'. ThomasSolver_solve W s = Inr s' \<and> sNRow s' = M \<and>
              (\<forall>i<W. \<forall>k<M. sX s' k i = thomas M (sys_of s i) k)"
proof -
  from assms obtain m where m: "M = Suc m" by (cases M) auto
  with assms have "sNRow s = Suc m" by simp
  from ThomasSolver_solve_eq [OF this, of W] show ?thesis
    by (simp add: m less_Suc_eq_le thomas_def sys_of_def assms)
qed

lemma scenario4_facts:
  "sNRow scenario4 = 4" "dominant 4 (sys_of scenario4 i)" "boundary_zero 4 (sys_of scenario4 i)"
  "solves 4 (sys_of scenario4 i) (\<lambda>k. 1)"
  by (simp_all add: dominant_def boundary_zero_def solves_def matvec_def sys_of_simps
      scenario4_def rows_def eval_nat_numeral All_less_Suc)


subsection \<open>The cyclic reduction of the diffusion form\<close>

lemma PCRDiff_level_read_nat:
  assumes "K < dNRow s"
  shows "PCRDiff_level_read Lev s K =
     (let half = 2 ^ (Lev - 1);
          Gkmh = (if K < half then 0 else dG s (K - half) 0);
          Kmh = below half K;
          Gkms = (if K < 2 ^ Lev then 0 else dG s (K - 2 ^ Lev) 0);
          Kph = above (dNRow s) half K;
          Alpha = Gkmh / (dH s Kmh 0 + Gkms + Gkmh);
          Beta = dG s K 0 / (dH s Kph 0 + dG s K 0 + dG s Kph 0)
      in (dH s K 0 + Alpha * dH s Kmh 0 + Beta * dH s Kph 0,
          dG s Kph 0 * Beta,
          dX s K 0 + Alpha * dX s Kmh 0 + Beta * dX s Kph 0))"
proof -
  have a: "(int K - int h < 0) = (K < h)" "nat (int K - int h) = K - h" for h
    by auto
  show ?thesis
    unfolding PCRDiff_level_read_def Let_def int_pow2 nat_below0 nat_above0 [OF assms]
    unfolding a ..
qed

lemma PCRDiff_level_write_fold:
  "fold (\<lambda>K. PCRDiff_level_write K (f K)) [0..<n] t =
     t\<lparr>dG := (\<lambda>k i. if k < n \<and> i = 0 then fst (snd (f k)) else dG t k i),
       dH := (\<lambda>k i. if k < n \<and> i = 0 then fst (f k) else dH t k i),
       dX := (\<lambda>k i. if k < n \<and> i = 0 then snd (snd (f k)) else dX t k i)\<rparr>"
proof (induction n)
  case 0
  show ?case by simp
next
  case (Suc n)
  show ?case
    unfolding upt_Suc_append [OF le0] fold_append o_apply Suc
    by (intro dscratch_eqI; simp add: PCRDiff_level_write_def case_prod_beta put_apply fun_eq_iff)
qed

lemma PCRDiff_level_NRow: "dNRow (PCRDiff_level Lev s) = dNRow s"
  by (simp add: PCRDiff_level_def PCRDiff_level_write_fold)

lemma PCRDiff_level_sys:
  "dsys_of (PCRDiff_level Lev s) 0 = spec_pcrdiff_level (dNRow s) Lev (dsys_of s 0)"
  unfolding PCRDiff_level_def PCRDiff_level_write_fold
  by (simp add: dsys_of_def spec_pcrdiff_level_def lane_def fun_eq_iff PCRDiff_level_read_nat Let_def
      coupling_below_def)

lemma PCRDiff_levels_NRow: "dNRow (fold PCRDiff_level Ls s) = dNRow s"
  by (induction Ls arbitrary: s) (simp_all add: PCRDiff_level_NRow)

lemma PCRDiff_levels_sys:
  "dsys_of (fold PCRDiff_level Ls s) 0 = fold (spec_pcrdiff_level (dNRow s)) Ls (dsys_of s 0)"
  by (induction Ls arbitrary: s) (simp_all add: PCRDiff_level_NRow PCRDiff_level_sys)

lemma PCRDiff_final_nat:
  "PCRDiff_final (int st) K s =
     (if K + st < dNRow s \<or> st \<le> K then
        if K < dNRow s div 2 then
          let Gkms = (if K < st then 0 else dG s (K - st) 0);
              Dk = dH s K 0 + Gkms + dG s K 0;
              Dkps = dH s (K + st) 0 + dG s K 0 + dG s (K + st) 0;
              Det = Dk * Dkps - (- dG s K 0) * (- dG s K 0)
          in s\<lparr>dX := put (put (dX s) K 0 ((Dkps * dX s K 0 - (- dG s K 0) * dX s (K + st) 0) / Det))
               (K + st) 0 ((- (- dG s K 0) * dX s K 0 + Dk * dX s (K + st) 0) / Det)\<rparr>
        else s
      else s\<lparr>dX := put (dX s) K 0
             (dX s K 0 / (dH s K 0 + (if K < st then 0 else dG s (K - st) 0) + dG s K 0))\<rparr>)"
proof -
  have a: "(int K + int st < int (dNRow s) \<or> int K - int st \<ge> 0) = (K + st < dNRow s \<or> st \<le> K)"
    by auto
  have b: "(int K < int (dNRow s) div 2) = (K < dNRow s div 2)"
    by auto
  have c: "nat (int K + int st) = K + st" "(int K - int st < 0) = (K < st)"
    "nat (int K - int st) = K - st"
    by auto
  show ?thesis
    unfolding PCRDiff_final_def Let_def a b c by simp
qed

lemma PCRDiff_final_fold:
  assumes M: "dNRow s = M" and st: "st < M" "M \<le> 2 * st" and n: "n \<le> M"
  shows "fold (PCRDiff_final (int st)) [0..<n] s =
     s\<lparr>dX := (\<lambda>k i. if i = 0 \<and> (k < n \<or> (st \<le> k \<and> k - st < n)) \<and> k < M
                    then spec_pcrdiff_x M st (dsys_of s 0) k else dX s k i)\<rparr>"
  using n
proof (induction n)
  case 0
  show ?case by simp
next
  case (Suc n)
  then have n: "n < M" by simp
  let ?t = "s\<lparr>dX := (\<lambda>k i. if i = 0 \<and> (k < n \<or> (st \<le> k \<and> k - st < n)) \<and> k < M
                    then spec_pcrdiff_x M st (dsys_of s 0) k else dX s k i)\<rparr>"
  have IH: "fold (PCRDiff_final (int st)) [0..<n] s = ?t"
    using Suc by simp
  consider (lower) "n + st < M" | (upper) "st \<le> n" | (single) "M \<le> n + st" "n < st"
    by linarith
  then have "PCRDiff_final (int st) n ?t =
     s\<lparr>dX := (\<lambda>k i. if i = 0 \<and> (k < Suc n \<or> (st \<le> k \<and> k - st < Suc n)) \<and> k < M
                    then spec_pcrdiff_x M st (dsys_of s 0) k else dX s k i)\<rparr>"
  proof cases
    case lower
    with st have h: "n < M div 2" "n < st" by linarith+
    show ?thesis
      unfolding PCRDiff_final_nat
      using lower h M st
      apply (intro dscratch_eqI; simp add: put_apply fun_eq_iff Let_def)
      apply (auto simp add: spec_pcrdiff_x_def spec_pcrdiff_det_def effective_diag_def
          coupling_below_def dsys_of_def lane_def)
      done
  next
    case upper
    with st have h: "\<not> n < M div 2" by linarith
    show ?thesis
      unfolding PCRDiff_final_nat
      using upper h M st n
      apply (intro dscratch_eqI; simp add: put_apply fun_eq_iff)
      apply (auto simp add: less_Suc_eq)
      done
  next
    case single
    show ?thesis
      unfolding PCRDiff_final_nat
      using single M st n
      apply (intro dscratch_eqI; simp add: put_apply fun_eq_iff)
      apply (auto simp add: spec_pcrdiff_x_def effective_diag_def coupling_below_def
          dsys_of_def lane_def less_Suc_eq)
      done
  qed
  then show ?case
    unfolding upt_Suc_append [OF le0] fold_append o_apply IH by simp
qed

lemma PCRDiffusionSolver_solve_eq:
  assumes M: "dNRow s = M" and M2: "2 \<le> M"
  shows "PCRDiffusionSolver_solve s =
     Inr ((fold PCRDiff_level [1..<ceil_log2 M] s)
           \<lparr>dX := (\<lambda>k i. if i = 0 \<and> k < M then spec_pcrdiff M (dsys_of s 0) k
                          else dX (fold PCRDiff_level [1..<ceil_log2 M] s) k i)\<rparr>)"
proof -
  define L where "L = ceil_log2 M"
  define s1 where "s1 = fold PCRDiff_level [1..<L] s"
  have L: "0 < L" unfolding L_def by (rule ceil_log2_pos [OF M2])
  have st: "2 ^ (L - 1) < M" "M \<le> 2 * 2 ^ (L - 1)"
    unfolding L_def by (rule ceil_log2_stride [OF M2])+
  have M1: "dNRow s1 = M"
    by (simp add: s1_def PCRDiff_levels_NRow M)
  have sys: "dsys_of s1 0 = fold (spec_pcrdiff_level M) [1..<L] (dsys_of s 0)"
    by (simp add: s1_def PCRDiff_levels_sys M)
  have "PCRDiffusionSolver_solve s = Inr (fold (PCRDiff_final (int (2 ^ (L - 1)))) [0..<M] s1)"
    using M2 by (simp add: PCRDiffusionSolver_solve_def M Let_def L_def [symmetric]
        shl1_stride [OF L] s1_def)
  also have "fold (PCRDiff_final (int (2 ^ (L - 1)))) [0..<M] s1 =
     s1\<lparr>dX := (\<lambda>k i. if i = 0 \<and> (k < M \<or> (2 ^ (L - 1) \<le> k \<and> k - 2 ^ (L - 1) < M)) \<and> k < M
                    then spec_pcrdiff_x M (2 ^ (L - 1)) (dsys_of s1 0) k else dX s1 k i)\<rparr>"
    by (rule PCRDiff_final_fold [OF M1 st order_refl])
  also have "\<dots> = s1\<lparr>dX := (\<lambda>k i. if i = 0 \<and> k < M then spec_pcrdiff M (dsys_of s 0) k
                                   else dX s1 k i)\<rparr>"
    by (intro dscratch_eqI; auto simp add: fun_eq_iff spec_pcrdiff_def Let_def L_def [symmetric] sys)
  finally show ?thesis
    unfolding s1_def L_def .
qed


subsection \<open>The diffusion reduction is the general reduction of the explicit form\<close>

lemma agreeD:
  "agree M y z \<Longrightarrow> k < M \<Longrightarrow>
   p_sub y k = p_sub z k \<and> p_diag y k = p_diag z k \<and> p_super y k = p_super z k \<and> p_rhs y k = p_rhs z k"
  by (simp add: agree_def)

lemma agree_refl: "agree M y y"
  by (simp add: agree_def)

lemma agree_sym: "agree M y z \<Longrightarrow> agree M z y"
  by (simp add: agree_def)

lemma agree_trans: "agree M y z \<Longrightarrow> agree M z w \<Longrightarrow> agree M y w"
  by (simp add: agree_def)

lemma agree_level:
  assumes "agree M y z"
  shows "agree M (spec_pcr_level M lev y) (spec_pcr_level M lev z)"
  unfolding agree_def
proof (intro allI impI)
  fix k assume k: "k < M"
  note agreeD [OF assms k] agreeD [OF assms below_less [OF k, of "2 ^ (lev - 1)"]]
    agreeD [OF assms above_less [OF k, of "2 ^ (lev - 1)"]]
  with k show "p_sub (spec_pcr_level M lev y) k = p_sub (spec_pcr_level M lev z) k \<and>
    p_diag (spec_pcr_level M lev y) k = p_diag (spec_pcr_level M lev z) k \<and>
    p_super (spec_pcr_level M lev y) k = p_super (spec_pcr_level M lev z) k \<and>
    p_rhs (spec_pcr_level M lev y) k = p_rhs (spec_pcr_level M lev z) k"
    by (simp add: spec_pcr_level_def Let_def)
qed

lemma agree_levels:
  "agree M y z \<Longrightarrow> agree M (fold (spec_pcr_level M) Ls y) (fold (spec_pcr_level M) Ls z)"
  by (induction Ls arbitrary: y z) (simp_all add: agree_level)

lemma agree_final:
  assumes a: "agree M y z" and k: "k < M"
  shows "spec_pcr_x M st y k = spec_pcr_x M st z k"
proof -
  have 1: "p_sub y j = p_sub z j \<and> p_diag y j = p_diag z j \<and> p_super y j = p_super z j \<and>
           p_rhs y j = p_rhs z j" if "j < M" for j
    using agreeD [OF a that] .
  have 2: "k - st < M" using k by simp
  show ?thesis
    unfolding spec_pcr_x_def spec_pcr_det_def
    using 1 [OF k] 1 [OF 2] 1 [of "k + st"] k
    by (auto simp add: not_less)
qed

lemma agree_spec_pcr:
  "agree M y z \<Longrightarrow> k < M \<Longrightarrow> spec_pcr M y k = spec_pcr M z k"
  unfolding spec_pcr_def Let_def by (intro agree_final agree_levels)

lemma agree_zero_at: "agree M y z \<Longrightarrow> zero_at M h y \<Longrightarrow> zero_at M h z"
  by (simp add: agree_def zero_at_def)

lemma agree_dominant_all: "agree M y z \<Longrightarrow> dominant_all M y \<Longrightarrow> dominant_all M z"
  by (simp add: agree_def dominant_all_def)

lemma agree_dominant:
  assumes a: "agree M y z" and d: "dominant M y"
  shows "dominant M z"
  unfolding dominant_def
proof (intro allI impI)
  fix k assume k: "k < M"
  from agreeD [OF a k]
  have e: "p_sub z k = p_sub y k" "p_super z k = p_super y k" "p_diag z k = p_diag y k"
    by simp_all
  from dominantD [OF d k]
  show "(if 0 < k then \<bar>p_sub z k\<bar> else 0) + (if k + 1 < M then \<bar>p_super z k\<bar> else 0) < \<bar>p_diag z k\<bar>"
    unfolding e .
qed

lemma coupled_simps:
  "p_sub (coupled h g) k = - coupling_below g h k"
  "p_diag (coupled h g) k = q_H g k + coupling_below g h k + q_G g k"
  "p_super (coupled h g) k = - q_G g k"
  "p_rhs (coupled h g) k = q_X g k"
  by (simp_all add: coupled_def)

lemma reduce_diag_algebra:
  fixes a c H Hm Sm Gm Hp Sp Gp :: real
  assumes "Hm + Sm + Gm \<noteq> 0" and "Hp + Sp + Gp \<noteq> 0"
  shows "H + a / (Hm + Sm + Gm) * Hm + c / (Hp + Sp + Gp) * Hp
           + a / (Hm + Sm + Gm) * Sm + Gp * (c / (Hp + Sp + Gp)) =
         H + a + c + - (- a) / (Hm + Sm + Gm) * (- Gm) + - (- c) / (Hp + Sp + Gp) * (- Sp)"
proof -
  define q where "q = a / (Hm + Sm + Gm)"
  define r where "r = c / (Hp + Sp + Gp)"
  have "q * (Hm + Sm + Gm) = a" "r * (Hp + Sp + Gp) = c"
    using assms by (simp_all add: q_def r_def)
  then have m: "q * Hm + q * Sm + q * Gm = a" and p: "r * Hp + r * Sp + r * Gp = c"
    by (simp_all only: distrib_left)
  have "H + q * Hm + r * Hp + q * Sm + Gp * r = H + a + c + q * (- Gm) + r * (- Sp)"
    using m p by (simp add: mult.commute)
  then show ?thesis
    by (simp only: q_def r_def minus_minus)
qed

lemma spec_pcrdiff_level_fields:
  assumes "k < M" and "0 < lev" and "h = 2 ^ (lev - 1)"
  shows "q_G (spec_pcrdiff_level M lev g) k =
           q_G g (above M h k) * (q_G g k / (q_H g (above M h k) + q_G g k + q_G g (above M h k)))"
    and "q_H (spec_pcrdiff_level M lev g) k =
           q_H g k +
           coupling_below g h k / (q_H g (below h k) + coupling_below g (2 * h) k + coupling_below g h k)
             * q_H g (below h k) +
           q_G g k / (q_H g (above M h k) + q_G g k + q_G g (above M h k)) * q_H g (above M h k)"
    and "q_X (spec_pcrdiff_level M lev g) k =
           q_X g k +
           coupling_below g h k / (q_H g (below h k) + coupling_below g (2 * h) k + coupling_below g h k)
             * q_X g (below h k) +
           q_G g k / (q_H g (above M h k) + q_G g k + q_G g (above M h k)) * q_X g (above M h k)"
proof -
  from assms have st: "(2::nat) ^ lev = 2 * h"
    by (cases lev) simp_all
  show "q_G (spec_pcrdiff_level M lev g) k =
           q_G g (above M h k) * (q_G g k / (q_H g (above M h k) + q_G g k + q_G g (above M h k)))"
    and "q_H (spec_pcrdiff_level M lev g) k =
           q_H g k +
           coupling_below g h k / (q_H g (below h k) + coupling_below g (2 * h) k + coupling_below g h k)
             * q_H g (below h k) +
           q_G g k / (q_H g (above M h k) + q_G g k + q_G g (above M h k)) * q_H g (above M h k)"
    and "q_X (spec_pcrdiff_level M lev g) k =
           q_X g k +
           coupling_below g h k / (q_H g (below h k) + coupling_below g (2 * h) k + coupling_below g h k)
             * q_X g (below h k) +
           q_G g k / (q_H g (above M h k) + q_G g k + q_G g (above M h k)) * q_X g (above M h k)"
    using assms(1) by (simp_all add: spec_pcrdiff_level_def Let_def st assms(3))
qed

lemma spec_pcr_level_fields:
  assumes "k < M" and "h = 2 ^ (lev - 1)"
  shows "p_sub (spec_pcr_level M lev y) k = - p_sub y k / p_diag y (below h k) * p_sub y (below h k)"
    and "p_diag (spec_pcr_level M lev y) k =
           p_diag y k + - p_sub y k / p_diag y (below h k) * p_super y (below h k)
                      + - p_super y k / p_diag y (above M h k) * p_sub y (above M h k)"
    and "p_super (spec_pcr_level M lev y) k =
           - p_super y k / p_diag y (above M h k) * p_super y (above M h k)"
    and "p_rhs (spec_pcr_level M lev y) k =
           p_rhs y k + - p_sub y k / p_diag y (below h k) * p_rhs y (below h k)
                     + - p_super y k / p_diag y (above M h k) * p_rhs y (above M h k)"
  using assms(1) by (simp_all add: spec_pcr_level_def Let_def assms(2))

lemma pcrdiff_level_agree:
  assumes z: "zero_at M h (coupled h g)" and d: "dominant_all M (coupled h g)"
    and h: "h = 2 ^ (lev - 1)" and lev: "0 < lev"
  shows "agree M (coupled (2 * h) (spec_pcrdiff_level M lev g)) (spec_pcr_level M lev (coupled h g))"
  unfolding agree_def
proof (intro allI impI)
  fix k assume k: "k < M"
  let ?y = "coupled h g"
  let ?g' = "spec_pcrdiff_level M lev g"
  from lev have st: "(2::nat) ^ lev = 2 * h"
    by (cases lev) (simp_all add: h)
  define km where "km = below h k"
  define kp where "kp = above M h k"
  define Dm where "Dm = q_H g km + coupling_below g h km + q_G g km"
  define Dp where "Dp = q_H g kp + coupling_below g h kp + q_G g kp"
  define Alpha where "Alpha = coupling_below g h k / Dm"
  define Beta where "Beta = q_G g k / Dp"
  have kmM: "km < M" and kpM: "kp < M"
    using k by (simp_all add: km_def kp_def below_less above_less)
  from d kmM have Dm: "Dm \<noteq> 0"
    unfolding Dm_def using dominant_all_nonzero [of M ?y km] by (simp add: coupled_simps)
  from d kpM have Dp: "Dp \<noteq> 0"
    unfolding Dp_def using dominant_all_nonzero [of M ?y kp] by (simp add: coupled_simps)
  have alpha: "coupling_below g h k /
      (q_H g km + coupling_below g (2 * h) k + coupling_below g h k) = Alpha"
  proof (cases "h \<le> k")
    case True
    then have "km = k - h" by (simp add: km_def below_def)
    with True have "coupling_below g h km = coupling_below g (2 * h) k" "q_G g km = coupling_below g h k"
      by (auto simp add: coupling_below_def mult_2)
    then show ?thesis by (simp add: Alpha_def Dm_def)
  next
    case False
    then show ?thesis by (simp add: Alpha_def coupling_below_def)
  qed
  have beta: "q_G g k / (q_H g kp + q_G g k + q_G g kp) = Beta"
  proof (cases "k + h < M")
    case True
    then have "kp = k + h" by (simp add: kp_def above_def)
    then have "coupling_below g h kp = q_G g k"
      by (simp add: coupling_below_def)
    then show ?thesis by (simp add: Beta_def Dp_def)
  next
    case False
    with z k have "p_super ?y k = 0" by (simp add: zero_at_def)
    then show ?thesis by (simp add: Beta_def coupled_simps)
  qed
  note new = spec_pcrdiff_level_fields [OF k lev h, of g, folded km_def kp_def, unfolded alpha beta]
  have cb: "coupling_below ?g' (2 * h) k = Alpha * coupling_below g h km"
  proof (cases "2 * h \<le> k")
    case True
    define j where "j = k - 2 * h"
    from True k have j: "j < M" "j + h = k - h" "j + h < M" "k - h = km" "\<not> km < h" "km - h = j"
      "\<not> k < h" "\<not> k < 2 * h" "\<not> j + h < h" "j + h + h = k"
      by (auto simp add: j_def km_def below_def)
    have aj: "above M h j = km"
      using j by (simp add: above_def)
    have "q_G ?g' j = q_G g km * (q_G g j / (q_H g km + q_G g j + q_G g km))"
      using spec_pcrdiff_level_fields(1) [OF j(1) lev h, of g] by (simp only: aj)
    moreover have "Alpha = q_G g km / (q_H g km + q_G g j + q_G g km)"
      unfolding Alpha_def Dm_def coupling_below_def using j by simp
    ultimately show ?thesis
      using j by (simp add: coupling_below_def j_def)
  next
    case False
    show ?thesis
    proof (cases "h \<le> k")
      case True
      with False have "km < h" by (simp add: km_def below_def)
      with False show ?thesis by (simp add: coupling_below_def)
    next
      case False
      then have "Alpha = 0" by (simp add: Alpha_def coupling_below_def)
      with False show ?thesis by (simp add: coupling_below_def)
    qed
  qed
  note old = spec_pcr_level_fields [OF k h, of ?y, folded km_def kp_def, unfolded coupled_simps,
      folded Dm_def Dp_def]
  have 1: "p_sub (coupled (2 * h) ?g') k = p_sub (spec_pcr_level M lev ?y) k"
    unfolding old coupled_simps cb by (simp add: Alpha_def)
  have 2: "p_diag (coupled (2 * h) ?g') k = p_diag (spec_pcr_level M lev ?y) k"
    unfolding old coupled_simps cb new(1,2) Alpha_def Beta_def Dm_def Dp_def
    by (rule reduce_diag_algebra [OF Dm [unfolded Dm_def] Dp [unfolded Dp_def]])
  have 3: "p_super (coupled (2 * h) ?g') k = p_super (spec_pcr_level M lev ?y) k"
    unfolding old coupled_simps new by (simp add: Beta_def)
  have 4: "p_rhs (coupled (2 * h) ?g') k = p_rhs (spec_pcr_level M lev ?y) k"
    unfolding old coupled_simps new by (simp add: Alpha_def Beta_def)
  from 1 2 3 4
  show "p_sub (coupled (2 * h) ?g') k = p_sub (spec_pcr_level M lev ?y) k \<and>
        p_diag (coupled (2 * h) ?g') k = p_diag (spec_pcr_level M lev ?y) k \<and>
        p_super (coupled (2 * h) ?g') k = p_super (spec_pcr_level M lev ?y) k \<and>
        p_rhs (coupled (2 * h) ?g') k = p_rhs (spec_pcr_level M lev ?y) k"
    by blast
qed

lemma pcrdiff_final_agree:
  "spec_pcrdiff_x M st g k = spec_pcr_x M st (coupled st g) k"
proof -
  have a: "coupling_below g st (j + st) = q_G g j" for j
    by (simp add: coupling_below_def)
  have b: "coupling_below g st k = q_G g (k - st)" "k - st + st = k" if "st \<le> k"
    using that by (simp_all add: coupling_below_def)
  show ?thesis
    unfolding spec_pcrdiff_x_def spec_pcr_x_def spec_pcr_det_def spec_pcrdiff_det_def
      effective_diag_def coupled_simps a
    by (simp add: b)
qed

lemma pcrdiff_levels_agree:
  assumes z: "zero_at M 1 (coupled 1 g)" and d: "dominant_all M (coupled 1 g)"
  shows "agree M (coupled (2 ^ n) (fold (spec_pcrdiff_level M) [1..<Suc n] g))
                 (fold (spec_pcr_level M) [1..<Suc n] (coupled 1 g)) \<and>
         zero_at M (2 ^ n) (fold (spec_pcr_level M) [1..<Suc n] (coupled 1 g)) \<and>
         dominant_all M (fold (spec_pcr_level M) [1..<Suc n] (coupled 1 g))"
proof (induction n)
  case 0
  from z d show ?case by (simp add: agree_refl)
next
  case (Suc n)
  define gn where "gn = fold (spec_pcrdiff_level M) [1..<Suc n] g"
  define yn where "yn = fold (spec_pcr_level M) [1..<Suc n] (coupled 1 g)"
  from Suc have a: "agree M (coupled (2 ^ n) gn) yn" and zn: "zero_at M (2 ^ n) yn"
    and dn: "dominant_all M yn"
    by (simp_all add: gn_def yn_def)
  have le: "1 \<le> Suc n" by simp
  have h: "(2::nat) ^ n = 2 ^ (Suc n - 1)" by simp
  have lev: "0 < Suc n" by simp
  from agree_zero_at [OF agree_sym [OF a] zn] have zg: "zero_at M (2 ^ n) (coupled (2 ^ n) gn)" .
  from agree_dominant_all [OF agree_sym [OF a] dn] have dg: "dominant_all M (coupled (2 ^ n) gn)" .
  have "agree M (coupled (2 * 2 ^ n) (spec_pcrdiff_level M (Suc n) gn))
                (spec_pcr_level M (Suc n) (coupled (2 ^ n) gn))"
    by (rule pcrdiff_level_agree [OF zg dg h lev])
  moreover have "agree M (spec_pcr_level M (Suc n) (coupled (2 ^ n) gn)) (spec_pcr_level M (Suc n) yn)"
    by (rule agree_level [OF a])
  ultimately have 1: "agree M (coupled (2 * 2 ^ n) (spec_pcrdiff_level M (Suc n) gn))
                (spec_pcr_level M (Suc n) yn)"
    by (rule agree_trans)
  have 2: "zero_at M (2 * 2 ^ n) (spec_pcr_level M (Suc n) yn)"
    by (rule pcr_level_zero [OF zn h])
  have 3: "dominant_all M (spec_pcr_level M (Suc n) yn)"
    by (rule pcr_level_dominant [OF dn])
  from 1 2 3 show ?case
    unfolding upt_Suc_append [OF le] fold_append o_apply fold.simps id_apply power_Suc
      gn_def [symmetric] yn_def [symmetric]
    by blast
qed

lemma coupled_translate:
  assumes "0 < M" and "q_G g (M - 1) = 0"
  shows "agree M (coupled 1 g) (translate M g)"
  unfolding agree_def
proof (intro allI impI)
  fix k assume k: "k < M"
  have "q_G g k = 0" if "\<not> k + 1 < M"
  proof -
    from that k have "k = M - 1" by simp
    with assms(2) show ?thesis by simp
  qed
  then show "p_sub (coupled 1 g) k = p_sub (translate M g) k \<and>
        p_diag (coupled 1 g) k = p_diag (translate M g) k \<and>
        p_super (coupled 1 g) k = p_super (translate M g) k \<and>
        p_rhs (coupled 1 g) k = p_rhs (translate M g) k"
    by (auto simp add: coupled_simps translate_def coupling_below_def)
qed

lemma translate_boundary: "boundary_zero M (translate M g)"
proof -
  have "\<not> M - 1 + 1 < M" by arith
  then show ?thesis
    by (simp add: boundary_zero_def translate_def)
qed

lemma pcrdiff_is_pcr:
  assumes M: "2 \<le> M" and G: "q_G g (M - 1) = 0" and dom: "dominant M (translate M g)"
    and k: "k < M"
  shows "spec_pcrdiff M g k = spec_pcr M (translate M g) k"
proof -
  from M have M0: "0 < M" by simp
  note a = coupled_translate [OF M0 G]
  have da: "dominant_all M (translate M g)"
    using dom translate_boundary by (rule dominant_all_boundary)
  have d: "dominant_all M (coupled 1 g)"
    by (rule agree_dominant_all [OF agree_sym [OF a] da])
  have "zero_at M 1 (translate M g)"
    by (simp only: zero_at_1 [OF M0] translate_boundary)
  then have z: "zero_at M 1 (coupled 1 g)"
    by (rule agree_zero_at [OF agree_sym [OF a]])
  from ceil_log2_pos [OF M] obtain n where n: "ceil_log2 M = Suc n"
    by (cases "ceil_log2 M") auto
  from pcrdiff_levels_agree [OF z d, of n]
  have l: "agree M (coupled (2 ^ n) (fold (spec_pcrdiff_level M) [1..<Suc n] g))
                 (fold (spec_pcr_level M) [1..<Suc n] (coupled 1 g))"
    by blast
  have "spec_pcrdiff M g k = spec_pcrdiff_x M (2 ^ n) (fold (spec_pcrdiff_level M) [1..<Suc n] g) k"
    by (simp add: spec_pcrdiff_def n)
  also have "\<dots> = spec_pcr_x M (2 ^ n) (coupled (2 ^ n) (fold (spec_pcrdiff_level M) [1..<Suc n] g)) k"
    by (rule pcrdiff_final_agree)
  also have "\<dots> = spec_pcr_x M (2 ^ n) (fold (spec_pcr_level M) [1..<Suc n] (coupled 1 g)) k"
    by (rule agree_final [OF l k])
  also have "\<dots> = spec_pcr M (coupled 1 g) k"
    by (simp add: spec_pcr_def n)
  also have "\<dots> = spec_pcr M (translate M g) k"
    by (rule agree_spec_pcr [OF a k])
  finally show ?thesis .
qed


subsection \<open>The sequential diffusion solver is the sequential elimination of the explicit form\<close>

lemma spec_H_alt: "spec_H G H k = H k + spec_alpha G H k + G k"
  by (cases k) simp_all

lemma carried_alpha:
  fixes G S :: real
  assumes "S \<noteq> 0"
  shows "G * (S - G) / S = G - - G / S * (- G)"
  using assms by (simp add: field_simps)

lemma translate_fields:
  assumes "Suc k < M" and "q_G g (M - 1) = 0"
  shows "p_sub (translate M g) (Suc k) = - q_G g k"
    and "p_super (translate M g) k = - q_G g k"
    and "p_diag (translate M g) (Suc k) = q_H g (Suc k) + q_G g k + q_G g (Suc k)"
proof -
  have "q_G g (Suc k) = 0" if "\<not> Suc k + 1 < M"
  proof -
    from that assms(1) have "Suc k = M - 1" by simp
    with assms(2) show ?thesis by simp
  qed
  with assms(1) show "p_sub (translate M g) (Suc k) = - q_G g k"
    and "p_super (translate M g) k = - q_G g k"
    and "p_diag (translate M g) (Suc k) = q_H g (Suc k) + q_G g k + q_G g (Suc k)"
    by (auto simp add: translate_def)
qed

lemma translate_diag0:
  assumes "0 < M" and "q_G g (M - 1) = 0"
  shows "p_diag (translate M g) 0 = q_H g 0 + q_G g 0"
proof -
  have "q_G g 0 = 0" if "\<not> 1 < M"
  proof -
    from that assms(1) have "0 = M - 1" by simp
    with assms(2) show ?thesis by simp
  qed
  then show ?thesis by (auto simp add: translate_def)
qed

lemma diff_thomas_d:
  assumes G: "q_G g (M - 1) = 0" and dom: "dominant M (translate M g)" and k: "k < M"
  shows "thomas_d (p_sub (translate M g)) (p_diag (translate M g)) (p_super (translate M g)) k =
         spec_H (q_G g) (q_H g) k"
  using k
proof (induction k)
  case 0
  then show ?case by (simp add: translate_diag0 [OF _ G])
next
  case (Suc k)
  let ?y = "translate M g"
  let ?S = "spec_H (q_G g) (q_H g) k"
  from Suc have IH: "thomas_d (p_sub ?y) (p_diag ?y) (p_super ?y) k = ?S"
    by simp
  from dom Suc.prems have "thomas_d (p_sub ?y) (p_diag ?y) (p_super ?y) k \<noteq> 0"
    by (intro thomas_pivot_nonzero [of M]) simp_all
  with IH have S: "?S \<noteq> 0" by simp
  have "spec_alpha (q_G g) (q_H g) (Suc k) = q_G g k * (?S - q_G g k) / ?S"
    by (simp add: spec_H_alt)
  also have "\<dots> = q_G g k - - q_G g k / ?S * (- q_G g k)"
    by (rule carried_alpha [OF S])
  finally have a: "spec_alpha (q_G g) (q_H g) (Suc k) = q_G g k - - q_G g k / ?S * (- q_G g k)" .
  have "thomas_d (p_sub ?y) (p_diag ?y) (p_super ?y) (Suc k) =
      q_H g (Suc k) + q_G g k + q_G g (Suc k) - - q_G g k / ?S * (- q_G g k)"
    unfolding thomas_d.simps IH translate_fields [OF Suc.prems G] ..
  also have "\<dots> = spec_H (q_G g) (q_H g) (Suc k)"
    unfolding spec_H.simps a by simp
  finally show ?case .
qed

lemma diff_thomas_c:
  assumes G: "q_G g (M - 1) = 0" and dom: "dominant M (translate M g)" and k: "k < M"
  shows "thomas_c (p_sub (translate M g)) (p_diag (translate M g)) (p_super (translate M g))
           (p_rhs (translate M g)) k =
         spec_rhs (q_G g) (q_H g) (q_X g) k"
  using k
proof (induction k)
  case 0
  show ?case by (simp add: translate_def)
next
  case (Suc k)
  let ?y = "translate M g"
  from Suc have IH: "thomas_c (p_sub ?y) (p_diag ?y) (p_super ?y) (p_rhs ?y) k =
      spec_rhs (q_G g) (q_H g) (q_X g) k"
    by simp
  from Suc.prems have k: "k < M" by simp
  have r: "p_rhs ?y (Suc k) = q_X g (Suc k)"
    by (simp add: translate_def)
  show ?case
    unfolding thomas_c.simps IH diff_thomas_d [OF G dom k] translate_fields [OF Suc.prems G] r
    by simp
qed

lemma back_subst_diff_back:
  assumes "\<forall>j<M. d j = h j \<and> c j = c' j" and "\<forall>j. j + 1 < M \<longrightarrow> u j = - v j" and "k < M"
  shows "back_subst M d u c k = diff_back M h v c' k"
proof -
  obtain m where m: "M = Suc m" using assms(3) by (cases M) auto
  from assms(3) have "k \<le> m" by (simp add: m)
  then show ?thesis
  proof (induction k rule: inc_induct)
    case base
    from assms(1) have "d m = h m" "c m = c' m" by (simp_all add: m)
    moreover have "M \<le> Suc m" by (simp add: m)
    ultimately show ?case
      by (subst back_subst.simps, subst diff_back.simps) simp
  next
    case (step n)
    from step.hyps have n: "n < m" by simp
    with assms(1,2) have "d n = h n" "c n = c' n" "u n = - v n" by (simp_all add: m)
    moreover have "\<not> M \<le> Suc n" using n by (simp add: m)
    ultimately show ?case
      by (subst back_subst.simps, subst diff_back.simps) (simp add: step.IH)
  qed
qed

lemma thomasdiff_is_thomas:
  assumes G: "q_G g (M - 1) = 0" and dom: "dominant M (translate M g)" and k: "k < M"
  shows "spec_diff_x M (q_G g) (q_H g) (q_X g) k = thomas M (translate M g) k"
  unfolding spec_diff_x_def thomas_def thomas_x_def
proof (rule back_subst_diff_back [symmetric, OF _ _ k])
  show "\<forall>j<M. thomas_d (p_sub (translate M g)) (p_diag (translate M g)) (p_super (translate M g)) j =
      spec_H (q_G g) (q_H g) j \<and>
      thomas_c (p_sub (translate M g)) (p_diag (translate M g)) (p_super (translate M g))
           (p_rhs (translate M g)) j = spec_rhs (q_G g) (q_H g) (q_X g) j"
    by (simp add: diff_thomas_d [OF G dom] diff_thomas_c [OF G dom])
  show "\<forall>j. j + 1 < M \<longrightarrow> p_super (translate M g) j = - q_G g j"
    by (simp add: translate_def)
qed

subsection \<open>The diffusion solvers on scratch, row by row\<close>

lemma dsys_of_simps:
  "q_G (dsys_of s i) k = dG s k i" "q_H (dsys_of s i) k = dH s k i" "q_X (dsys_of s i) k = dX s k i"
  by (simp_all add: dsys_of_def lane_def)

lemma translated_NRow: "sNRow (translated sd) = dNRow sd"
  by (simp add: translated_def)

lemma sys_of_translated: "sys_of (translated sd) i = translate (dNRow sd) (dsys_of sd i)"
  by (simp add: sys_of_def translated_def lane_def)

lemma ThomasDiffusionSolver_solve_spec:
  assumes "dNRow s = M" and "1 \<le> M"
  shows "\<exists>s'. ThomasDiffusionSolver_solve W s = Inr s' \<and> dNRow s' = M \<and>
     (\<forall>i<W. \<forall>k<M. dX s' k i = spec_diff_x M (q_G (dsys_of s i)) (q_H (dsys_of s i)) (q_X (dsys_of s i)) k)"
proof -
  from assms obtain m where m: "M = Suc m" by (cases M) auto
  with assms have "dNRow s = Suc m" by simp
  from ThomasDiffusionSolver_solve_eq [OF this, of W] show ?thesis
    by (simp add: m less_Suc_eq_le dsys_of_def assms)
qed

lemma PCRDiffusionSolver_solve_spec:
  assumes "dNRow s = M" and "2 \<le> M"
  shows "\<exists>s'. PCRDiffusionSolver_solve s = Inr s' \<and> dNRow s' = M \<and>
              (\<forall>k<M. dX s' k 0 = spec_pcrdiff M (dsys_of s 0) k)"
  by (simp add: PCRDiffusionSolver_solve_eq [OF assms] PCRDiff_levels_NRow assms)

text \<open>The two families agree on a well-posed system with zero corner entries.\<close>

lemma thomas_is_pcr:
  assumes dom: "dominant M y" and bz: "boundary_zero M y" and M: "2 \<le> M" and k: "k < M"
  shows "thomas M y k = spec_pcr M y k"
  using pcr_round_trip [OF dom bz thomas_sound [OF dom] M k] by simp

lemma diffusion4_facts:
  "dNRow diffusion4 = 4" "dG diffusion4 (4 - 1) i = 0" "dominant 4 (translate 4 (dsys_of diffusion4 i))"
  by (simp_all add: dominant_def translate_def dsys_of_simps diffusion4_def rows_def
      eval_nat_numeral All_less_Suc)


subsection \<open>Staging and write-back\<close>

lemma Thomas_load_inner:
  "fold (Thomas_load h DL D DU X NBatch IStart K) [0..<w] s =
     s\<lparr>sDL := (\<lambda>k i. if k = K \<and> i < w then (if IStart + i < NBatch then rd h DL (IStart + i) K else 0)
                       else sDL s k i),
       sD := (\<lambda>k i. if k = K \<and> i < w then (if IStart + i < NBatch then rd h D (IStart + i) K else 1)
                       else sD s k i),
       sDU := (\<lambda>k i. if k = K \<and> i < w then (if IStart + i < NBatch then rd h DU (IStart + i) K else 0)
                       else sDU s k i),
       sX := (\<lambda>k i. if k = K \<and> i < w then (if IStart + i < NBatch then rd h X (IStart + i) K else 0)
                       else sX s k i)\<rparr>"
proof (induction w)
  case 0
  show ?case by simp
next
  case (Suc w)
  show ?case
    unfolding upt_Suc_append [OF le0] fold_append o_apply Suc
    by (intro scratch_eqI; simp add: Thomas_load_def Let_def put_apply fun_eq_iff)
qed

lemma Thomas_load_outer:
  "fold (\<lambda>K. fold (Thomas_load h DL D DU X NBatch IStart K) [0..<w]) [0..<n] s =
     s\<lparr>sDL := (\<lambda>k i. if k < n \<and> i < w then (if IStart + i < NBatch then rd h DL (IStart + i) k else 0)
                       else sDL s k i),
       sD := (\<lambda>k i. if k < n \<and> i < w then (if IStart + i < NBatch then rd h D (IStart + i) k else 1)
                       else sD s k i),
       sDU := (\<lambda>k i. if k < n \<and> i < w then (if IStart + i < NBatch then rd h DU (IStart + i) k else 0)
                       else sDU s k i),
       sX := (\<lambda>k i. if k < n \<and> i < w then (if IStart + i < NBatch then rd h X (IStart + i) k else 0)
                       else sX s k i)\<rparr>"
proof (induction n)
  case 0
  show ?case by simp
next
  case (Suc n)
  show ?case
    unfolding upt_Suc_append [OF le0] fold_append o_apply Suc
    by (intro scratch_eqI; simp add: Thomas_load_inner fun_eq_iff less_Suc_eq)
qed

lemma Thomas_stage_eq:
  "Thomas_stage W r mem DL D DU X h =
     \<lparr>sNRow = extent1 X,
      sDL = (\<lambda>k i. if k < extent1 X \<and> i < W
                   then (if r * W + i < extent0 X then rd h DL (r * W + i) k else 0) else sDL mem k i),
      sD = (\<lambda>k i. if k < extent1 X \<and> i < W
                   then (if r * W + i < extent0 X then rd h D (r * W + i) k else 1) else sD mem k i),
      sDU = (\<lambda>k i. if k < extent1 X \<and> i < W
                   then (if r * W + i < extent0 X then rd h DU (r * W + i) k else 0) else sDU mem k i),
      sX = (\<lambda>k i. if k < extent1 X \<and> i < W
                   then (if r * W + i < extent0 X then rd h X (r * W + i) k else 0) else sX mem k i)\<rparr>"
  unfolding Thomas_stage_def Let_def Thomas_load_outer
  by (intro scratch_eqI; simp add: TriDiagScratch_new_def fun_eq_iff)

lemma Thomas_store_inner:
  "fold (Thomas_store s X NBatch IStart i) [0..<n] h =
     h(ident X := (\<lambda>I k. if I = IStart + i \<and> I < NBatch \<and> k < n then sX s k i else h (ident X) I k))"
proof (induction n)
  case 0
  show ?case by (simp add: fun_eq_iff)
next
  case (Suc n)
  show ?case
    unfolding upt_Suc_append [OF le0] fold_append o_apply Suc
    by (auto simp add: Thomas_store_def Let_def wr_def put_apply fun_eq_iff less_Suc_eq)
qed

lemma Thomas_store_outer:
  "fold (\<lambda>i. fold (Thomas_store s X NBatch IStart i) [0..<n]) [0..<w] h =
     h(ident X := (\<lambda>I k. if IStart \<le> I \<and> I < IStart + w \<and> I < NBatch \<and> k < n
                          then sX s k (I - IStart) else h (ident X) I k))"
proof (induction w)
  case 0
  show ?case by (simp add: fun_eq_iff)
next
  case (Suc w)
  show ?case
    unfolding upt_Suc_append [OF le0] fold_append o_apply Suc
    unfolding fold_Cons fold_Nil id_apply o_apply Thomas_store_inner
    by (auto simp add: fun_eq_iff less_Suc_eq)
qed

lemma Thomas_writeback_eq:
  "Thomas_writeback W r s X h =
     h(ident X := (\<lambda>I k. if r * W \<le> I \<and> I < r * W + W \<and> I < extent0 X \<and> k < extent1 X
                          then sX s k (I - r * W) else h (ident X) I k))"
  by (simp add: Thomas_writeback_def Let_def Thomas_store_outer)

lemma PCR_stage_eq:
  "PCR_stage r mem DL D DU X h =
     \<lparr>sNRow = extent1 X,
      sDL = (\<lambda>k i. if k < extent1 X \<and> i = 0
                   then (if r < extent0 X then rd h DL r k else 0) else sDL mem k i),
      sD = (\<lambda>k i. if k < extent1 X \<and> i = 0
                   then (if r < extent0 X then rd h D r k else 1) else sD mem k i),
      sDU = (\<lambda>k i. if k < extent1 X \<and> i = 0
                   then (if r < extent0 X then rd h DU r k else 0) else sDU mem k i),
      sX = (\<lambda>k i. if k < extent1 X \<and> i = 0
                   then (if r < extent0 X then rd h X r k else 0) else sX mem k i)\<rparr>"
proof -
  have "fold (PCR_load h DL D DU X NBatch r) [0..<n] s =
     s\<lparr>sDL := (\<lambda>k i. if k < n \<and> i = 0 then (if r < NBatch then rd h DL r k else 0) else sDL s k i),
       sD := (\<lambda>k i. if k < n \<and> i = 0 then (if r < NBatch then rd h D r k else 1) else sD s k i),
       sDU := (\<lambda>k i. if k < n \<and> i = 0 then (if r < NBatch then rd h DU r k else 0) else sDU s k i),
       sX := (\<lambda>k i. if k < n \<and> i = 0 then (if r < NBatch then rd h X r k else 0) else sX s k i)\<rparr>"
    for n NBatch s
  proof (induction n)
    case 0
    show ?case by simp
  next
    case (Suc n)
    show ?case
      unfolding upt_Suc_append [OF le0] fold_append o_apply Suc
      by (intro scratch_eqI; simp add: PCR_load_def put_apply fun_eq_iff less_Suc_eq)
  qed
  then show ?thesis
    unfolding PCR_stage_def Let_def
    by (intro scratch_eqI; simp add: TriDiagScratch_new_def fun_eq_iff)
qed

lemma PCR_writeback_eq:
  "PCR_writeback r s X h =
     h(ident X := (\<lambda>I k. if I = r \<and> I < extent0 X \<and> k < extent1 X
                          then sX s k 0 else h (ident X) I k))"
proof -
  have "fold (PCR_store s X NBatch r) [0..<n] h =
     h(ident X := (\<lambda>I k. if I = r \<and> I < NBatch \<and> k < n then sX s k 0 else h (ident X) I k))"
    for n NBatch
  proof (induction n)
    case 0
    show ?case by (simp add: fun_eq_iff)
  next
    case (Suc n)
    show ?case
      unfolding upt_Suc_append [OF le0] fold_append o_apply Suc
      by (auto simp add: PCR_store_def wr_def put_apply fun_eq_iff less_Suc_eq)
  qed
  then show ?thesis
    by (simp add: PCR_writeback_def Let_def)
qed

lemma ThomasDiff_writeback_eq:
  "ThomasDiff_writeback W r s X h =
     h(ident X := (\<lambda>I k. if r * W \<le> I \<and> I < r * W + W \<and> I < extent0 X \<and> k < extent1 X
                          then dX s k (I - r * W) else h (ident X) I k))"
proof -
  have inner: "fold (ThomasDiff_store s X NBatch IStart i) [0..<n] h =
     h(ident X := (\<lambda>I k. if I = IStart + i \<and> I < NBatch \<and> k < n then dX s k i else h (ident X) I k))"
    for n NBatch IStart i h
  proof (induction n)
    case 0
    show ?case by (simp add: fun_eq_iff)
  next
    case (Suc n)
    show ?case
      unfolding upt_Suc_append [OF le0] fold_append o_apply Suc
      by (auto simp add: ThomasDiff_store_def Let_def wr_def put_apply fun_eq_iff less_Suc_eq)
  qed
  have "fold (\<lambda>i. fold (ThomasDiff_store s X NBatch IStart i) [0..<n]) [0..<w] h =
     h(ident X := (\<lambda>I k. if IStart \<le> I \<and> I < IStart + w \<and> I < NBatch \<and> k < n
                          then dX s k (I - IStart) else h (ident X) I k))"
    for n w NBatch IStart
  proof (induction w)
    case 0
    show ?case by (simp add: fun_eq_iff)
  next
    case (Suc w)
    show ?case
      unfolding upt_Suc_append [OF le0] fold_append o_apply Suc
      unfolding fold_Cons fold_Nil id_apply o_apply inner
      by (auto simp add: fun_eq_iff less_Suc_eq)
  qed
  then show ?thesis
    by (simp add: ThomasDiff_writeback_def Let_def)
qed

lemma PCRDiff_writeback_eq:
  "PCRDiff_writeback r s X h =
     h(ident X := (\<lambda>I k. if I = r \<and> k < extent1 X then dX s k 0 else h (ident X) I k))"
proof -
  have "fold (PCRDiff_store s X r) [0..<n] h =
     h(ident X := (\<lambda>I k. if I = r \<and> k < n then dX s k 0 else h (ident X) I k))"
    for n
  proof (induction n)
    case 0
    show ?case by (simp add: fun_eq_iff)
  next
    case (Suc n)
    show ?case
      unfolding upt_Suc_append [OF le0] fold_append o_apply Suc
      by (auto simp add: PCRDiff_store_def wr_def put_apply fun_eq_iff less_Suc_eq)
  qed
  then show ?thesis
    by (simp add: PCRDiff_writeback_def)
qed

lemma thomas_d_cong:
  assumes "agree M y z" and "k < M"
  shows "thomas_d (p_sub y) (p_diag y) (p_super y) k = thomas_d (p_sub z) (p_diag z) (p_super z) k"
  using assms(2)
proof (induction k)
  case 0
  with agreeD [OF assms(1), of 0] show ?case by simp
next
  case (Suc k)
  then have k: "k < M" by simp
  from agreeD [OF assms(1) Suc.prems] agreeD [OF assms(1) k] Suc.IH [OF k]
  show ?case by simp
qed

lemma thomas_c_cong:
  assumes "agree M y z" and "k < M"
  shows "thomas_c (p_sub y) (p_diag y) (p_super y) (p_rhs y) k =
         thomas_c (p_sub z) (p_diag z) (p_super z) (p_rhs z) k"
  using assms(2)
proof (induction k)
  case 0
  with agreeD [OF assms(1), of 0] show ?case by simp
next
  case (Suc k)
  then have k: "k < M" by simp
  from agreeD [OF assms(1) Suc.prems] Suc.IH [OF k] thomas_d_cong [OF assms(1) k]
  show ?case by simp
qed

lemma back_subst_cong:
  assumes "\<forall>j<M. d j = d' j \<and> u j = u' j \<and> c j = c' j" and "k < M"
  shows "back_subst M d u c k = back_subst M d' u' c' k"
proof -
  obtain m where m: "M = Suc m" using assms(2) by (cases M) auto
  from assms(2) have "k \<le> m" by (simp add: m)
  then show ?thesis
  proof (induction k rule: inc_induct)
    case base
    from assms(1) have "d m = d' m" "c m = c' m" by (simp_all add: m)
    moreover have "M \<le> Suc m" by (simp add: m)
    ultimately show ?case
      by (subst (1 2) back_subst.simps) simp
  next
    case (step n)
    from step.hyps have n: "n < m" by simp
    with assms(1) have "d n = d' n" "c n = c' n" "u n = u' n" by (simp_all add: m)
    moreover have "\<not> M \<le> Suc n" using n by (simp add: m)
    ultimately show ?case
      by (subst (1 2) back_subst.simps) (simp add: step.IH)
  qed
qed

lemma thomas_cong:
  assumes "agree M y z" and "k < M"
  shows "thomas M y k = thomas M z k"
  unfolding thomas_def thomas_x_def
  using assms(1)
  by (intro back_subst_cong [OF _ assms(2)] allI impI conjI thomas_d_cong thomas_c_cong)
     (simp_all add: agree_def)

lemma Thomas_stage_NRow: "sNRow (Thomas_stage W r mem DL D DU X h) = extent1 X"
  by (simp add: Thomas_stage_eq)

lemma Thomas_stage_real:
  assumes "i < W" and "r * W + i < extent0 X"
  shows "agree (extent1 X) (sys_of (Thomas_stage W r mem DL D DU X h) i) (row_sys h DL D DU X (r * W + i))"
  using assms by (simp add: agree_def sys_of_simps Thomas_stage_eq row_sys_def)


lemma PCR_stage_NRow: "sNRow (PCR_stage r mem DL D DU X h) = extent1 X"
  by (simp add: PCR_stage_eq)

lemma PCR_stage_real:
  assumes "r < extent0 X"
  shows "agree (extent1 X) (sys_of (PCR_stage r mem DL D DU X h) 0) (row_sys h DL D DU X r)"
  using assms by (simp add: agree_def sys_of_simps PCR_stage_eq row_sys_def)


lemma ThomasSolver_solve_arrays_eq:
  assumes "1 \<le> extent1 X"
  shows "ThomasSolver_solve_arrays W r mem DL D DU X h =
     Inr (h(ident X := (\<lambda>I k. if r * W \<le> I \<and> I < r * W + W \<and> I < extent0 X \<and> k < extent1 X
                          then thomas (extent1 X) (row_sys h DL D DU X I) k else h (ident X) I k)))"
proof -
  from ThomasSolver_solve_thomas [where s = "Thomas_stage W r mem DL D DU X h" and W = W,
      OF Thomas_stage_NRow assms]
  obtain s' where s': "ThomasSolver_solve W (Thomas_stage W r mem DL D DU X h) = Inr s'"
    and v: "\<forall>i<W. \<forall>k<extent1 X. sX s' k i =
        thomas (extent1 X) (sys_of (Thomas_stage W r mem DL D DU X h) i) k"
    by blast
  have "sX s' k (I - r * W) = thomas (extent1 X) (row_sys h DL D DU X I) k"
    if "r * W \<le> I" "I < r * W + W" "I < extent0 X" "k < extent1 X" for I k
  proof -
    from that have i: "I - r * W < W" "r * W + (I - r * W) = I" by simp_all
    from that i have a: "agree (extent1 X) (sys_of (Thomas_stage W r mem DL D DU X h) (I - r * W))
        (row_sys h DL D DU X I)"
      using Thomas_stage_real [OF i(1), of r X mem DL D DU h] by simp
    from v i(1) that(4) thomas_cong [OF a that(4)] show ?thesis by simp
  qed
  then show ?thesis
    by (simp add: ThomasSolver_solve_arrays_def s' Thomas_writeback_eq fun_eq_iff)
qed

lemma PCRSolver_solve_arrays_eq:
  assumes "2 \<le> extent1 X"
  shows "PCRSolver_solve_arrays r mem DL D DU X h =
     Inr (h(ident X := (\<lambda>I k. if I = r \<and> I < extent0 X \<and> k < extent1 X
                          then spec_pcr (extent1 X) (row_sys h DL D DU X I) k else h (ident X) I k)))"
proof -
  from PCRSolver_solve_spec [where s = "PCR_stage r mem DL D DU X h", OF PCR_stage_NRow assms]
  obtain s' where s': "PCRSolver_solve (PCR_stage r mem DL D DU X h) = Inr s'"
    and v: "\<forall>k<extent1 X. sX s' k 0 = spec_pcr (extent1 X) (sys_of (PCR_stage r mem DL D DU X h) 0) k"
    by blast
  have "sX s' k 0 = spec_pcr (extent1 X) (row_sys h DL D DU X r) k"
    if "r < extent0 X" "k < extent1 X" for k
    using v that agree_spec_pcr [OF PCR_stage_real [OF that(1)] that(2), of mem DL D DU h]
    by simp
  then show ?thesis
    by (auto simp add: PCRSolver_solve_arrays_def s' PCR_writeback_eq fun_eq_iff)
qed

lemma ThomasDiff_stage_eq:
  "ThomasDiff_stage W r mem G H X h =
     \<lparr>dNRow = extent1 X,
      dG = (\<lambda>k i. if k < extent1 X \<and> i < W
                   then (if r * W + i < extent0 X then rd h G (r * W + i) k else 0) else dG mem k i),
      dH = (\<lambda>k i. if k < extent1 X \<and> i < W
                   then (if r * W + i < extent0 X then rd h H (r * W + i) k else 1) else dH mem k i),
      dX = (\<lambda>k i. if k < extent1 X \<and> i < W
                   then (if r * W + i < extent0 X then rd h X (r * W + i) k else 0) else dX mem k i),
      dAlpha = dAlpha mem\<rparr>"
proof -
  have inner: "fold (ThomasDiff_load h G H X NBatch IStart K) [0..<w] s =
     s\<lparr>dG := (\<lambda>k i. if k = K \<and> i < w then (if IStart + i < NBatch then rd h G (IStart + i) K else 0)
                       else dG s k i),
       dH := (\<lambda>k i. if k = K \<and> i < w then (if IStart + i < NBatch then rd h H (IStart + i) K else 1)
                       else dH s k i),
       dX := (\<lambda>k i. if k = K \<and> i < w then (if IStart + i < NBatch then rd h X (IStart + i) K else 0)
                       else dX s k i)\<rparr>"
    for NBatch IStart K w s
  proof (induction w)
    case 0
    show ?case by simp
  next
    case (Suc w)
    show ?case
      unfolding upt_Suc_append [OF le0] fold_append o_apply Suc
      by (intro dscratch_eqI; simp add: ThomasDiff_load_def Let_def put_apply fun_eq_iff)
  qed
  have outer: "fold (\<lambda>K. fold (ThomasDiff_load h G H X NBatch IStart K) [0..<w]) [0..<n] s =
     s\<lparr>dG := (\<lambda>k i. if k < n \<and> i < w then (if IStart + i < NBatch then rd h G (IStart + i) k else 0)
                       else dG s k i),
       dH := (\<lambda>k i. if k < n \<and> i < w then (if IStart + i < NBatch then rd h H (IStart + i) k else 1)
                       else dH s k i),
       dX := (\<lambda>k i. if k < n \<and> i < w then (if IStart + i < NBatch then rd h X (IStart + i) k else 0)
                       else dX s k i)\<rparr>"
    for NBatch IStart w n s
  proof (induction n)
    case 0
    show ?case by simp
  next
    case (Suc n)
    show ?case
      unfolding upt_Suc_append [OF le0] fold_append o_apply Suc
      by (intro dscratch_eqI; simp add: inner fun_eq_iff less_Suc_eq)
  qed
  show ?thesis
    unfolding ThomasDiff_stage_def Let_def outer
    by (intro dscratch_eqI; simp add: TriDiagDiffScratch_new_def fun_eq_iff)
qed

lemma dagreeD:
  "dagree M g g' \<Longrightarrow> k < M \<Longrightarrow> q_G g k = q_G g' k \<and> q_H g k = q_H g' k \<and> q_X g k = q_X g' k"
  by (simp add: dagree_def)

lemma spec_alpha_cong:
  assumes "dagree M g g'" and "k < M"
  shows "spec_alpha (q_G g) (q_H g) k = spec_alpha (q_G g') (q_H g') k"
  using assms(2)
proof (induction k)
  case 0
  show ?case by simp
next
  case (Suc k)
  then have k: "k < M" by simp
  from dagreeD [OF assms(1) k] Suc.IH [OF k] show ?case by simp
qed

lemma spec_H_cong:
  assumes "dagree M g g'" and "k < M"
  shows "spec_H (q_G g) (q_H g) k = spec_H (q_G g') (q_H g') k"
  using dagreeD [OF assms] spec_alpha_cong [OF assms] by (simp add: spec_H_alt)

lemma spec_rhs_cong:
  assumes "dagree M g g'" and "k < M"
  shows "spec_rhs (q_G g) (q_H g) (q_X g) k = spec_rhs (q_G g') (q_H g') (q_X g') k"
  using assms(2)
proof (induction k)
  case 0
  with dagreeD [OF assms(1), of 0] show ?case by simp
next
  case (Suc k)
  then have k: "k < M" by simp
  from dagreeD [OF assms(1) Suc.prems] dagreeD [OF assms(1) k] Suc.IH [OF k]
    spec_H_cong [OF assms(1) k]
  show ?case by simp
qed

lemma diff_back_cong2:
  assumes "\<forall>j<M. d j = d' j \<and> u j = u' j \<and> c j = c' j" and "k < M"
  shows "diff_back M d u c k = diff_back M d' u' c' k"
proof -
  obtain m where m: "M = Suc m" using assms(2) by (cases M) auto
  from assms(2) have "k \<le> m" by (simp add: m)
  then show ?thesis
  proof (induction k rule: inc_induct)
    case base
    from assms(1) have "d m = d' m" "c m = c' m" by (simp_all add: m)
    moreover have "M \<le> Suc m" by (simp add: m)
    ultimately show ?case
      by (subst (1 2) diff_back.simps) simp
  next
    case (step n)
    from step.hyps have n: "n < m" by simp
    with assms(1) have "d n = d' n" "c n = c' n" "u n = u' n" by (simp_all add: m)
    moreover have "\<not> M \<le> Suc n" using n by (simp add: m)
    ultimately show ?case
      by (subst (1 2) diff_back.simps) (simp add: step.IH)
  qed
qed

lemma thomas_diffusion_cong:
  assumes "dagree M g g'" and "k < M"
  shows "thomas_diffusion M g k = thomas_diffusion M g' k"
  unfolding thomas_diffusion_def spec_diff_x_def
  using assms(1)
  by (intro diff_back_cong2 [OF _ assms(2)] allI impI conjI spec_H_cong spec_rhs_cong)
     (simp_all add: dagree_def)

lemma ThomasDiff_stage_real:
  assumes "i < W" and "r * W + i < extent0 X"
  shows "dagree (extent1 X) (dsys_of (ThomasDiff_stage W r mem G H X h) i) (row_dsys h G H X (r * W + i))"
  using assms by (simp add: dagree_def dsys_of_simps ThomasDiff_stage_eq row_dsys_def)


lemma ThomasDiffusionSolver_solve_arrays_eq:
  assumes "1 \<le> extent1 X"
  shows "ThomasDiffusionSolver_solve_arrays W r mem G H X h =
     Inr (h(ident X := (\<lambda>I k. if r * W \<le> I \<and> I < r * W + W \<and> I < extent0 X \<and> k < extent1 X
                          then thomas_diffusion (extent1 X) (row_dsys h G H X I) k
                          else h (ident X) I k)))"
proof -
  have N: "dNRow (ThomasDiff_stage W r mem G H X h) = extent1 X"
    by (simp add: ThomasDiff_stage_eq)
  from ThomasDiffusionSolver_solve_spec [where s = "ThomasDiff_stage W r mem G H X h" and W = W,
      OF N assms]
  obtain s' where s': "ThomasDiffusionSolver_solve W (ThomasDiff_stage W r mem G H X h) = Inr s'"
    and v: "\<forall>i<W. \<forall>k<extent1 X. dX s' k i =
        thomas_diffusion (extent1 X) (dsys_of (ThomasDiff_stage W r mem G H X h) i) k"
    unfolding thomas_diffusion_def by blast
  have "dX s' k (I - r * W) = thomas_diffusion (extent1 X) (row_dsys h G H X I) k"
    if "r * W \<le> I" "I < r * W + W" "I < extent0 X" "k < extent1 X" for I k
  proof -
    from that have i: "I - r * W < W" "r * W + (I - r * W) = I" by simp_all
    from that i have a: "dagree (extent1 X) (dsys_of (ThomasDiff_stage W r mem G H X h) (I - r * W))
        (row_dsys h G H X I)"
      using ThomasDiff_stage_real [OF i(1), of r X mem G H h] by simp
    from v i(1) that(4) thomas_diffusion_cong [OF a that(4)] show ?thesis by simp
  qed
  then show ?thesis
    by (simp add: ThomasDiffusionSolver_solve_arrays_def s' ThomasDiff_writeback_eq fun_eq_iff)
qed

subsection \<open>Padding\<close>




lemma view_simps: "ident (view a n m) = a" "extent0 (view a n m) = n" "extent1 (view a n m) = m"
  by (simp_all add: view_def)

lemma scenario_store_facts:
  "dominant 4 (row_sys scenario_store (view A_DL n m) (view A_D n m) (view A_DU n m) (view A_X n m) I)"
  "boundary_zero 4 (row_sys scenario_store (view A_DL n m) (view A_D n m) (view A_DU n m) (view A_X n m) I)"
  "solves 4 (row_sys scenario_store (view A_DL n m) (view A_D n m) (view A_DU n m) (view A_X n m) I) (\<lambda>k. 1)"
  by (simp_all add: dominant_def boundary_zero_def solves_def matvec_def row_sys_def rd_def
      view_simps scenario_store_def eval_nat_numeral All_less_Suc)

subsection \<open>The diffusion PCR entry point returns\<close>

lemma PCRDiff_stage_NRow: "dNRow (PCRDiff_stage r mem G H X h) = extent1 X"
proof -
  have "dNRow (fold (PCRDiff_load h G H X r) Ks s) = dNRow s" for Ks s
    by (induction Ks arbitrary: s) (simp_all add: PCRDiff_load_def)
  then show ?thesis
    by (simp add: PCRDiff_stage_def TriDiagDiffScratch_new_def)
qed

lemma PCRDiffusionSolver_solve_arrays_returns:
  assumes "r < extent0 X" and "2 \<le> extent1 X"
  shows "\<exists>h'. PCRDiffusionSolver_solve_arrays r mem G H X h = Inr h'"
proof -
  from PCRDiffusionSolver_solve_spec [where s = "PCRDiff_stage r mem G H X h",
      OF PCRDiff_stage_NRow assms(2)]
  obtain s' where "PCRDiffusionSolver_solve (PCRDiff_stage r mem G H X h) = Inr s'"
    by blast
  with assms(1) show ?thesis
    by (simp add: PCRDiffusionSolver_solve_arrays_def Let_def)
qed

subsection \<open>The diffusion cyclic reduction on arrays, and the teams of a launch\<close>









lemma Thomas_policy_covers:
  assumes "0 < W" and "I < NBatch"
  shows "I div W < league_size (ThomasSolver_makeTeamPolicy W b NBatch NRow)"
    and "I div W < league_size (ThomasDiffusionSolver_makeTeamPolicy W b NBatch NRow)"
    and "I div W * W \<le> I" and "I < I div W * W + W"
proof -
  have "I div W < (NBatch + W - 1) div W"
  proof -
    have "I + 1 \<le> NBatch" using assms(2) by simp
    then have "I + W \<le> NBatch + W - 1" using assms(1) by simp
    then have "(I + W) div W \<le> (NBatch + W - 1) div W" by (rule div_le_mono)
    with assms(1) show ?thesis by simp
  qed
  then show "I div W < league_size (ThomasSolver_makeTeamPolicy W b NBatch NRow)"
    and "I div W < league_size (ThomasDiffusionSolver_makeTeamPolicy W b NBatch NRow)"
    by (simp_all add: ThomasSolver_makeTeamPolicy_def ThomasDiffusionSolver_makeTeamPolicy_def)
  show "I div W * W \<le> I" by simp
  show "I < I div W * W + W"
    using assms(1) div_mult_mod_eq [of I W] mod_less_divisor [OF assms(1), of I] by linarith
qed

section \<open>The claims\<close>

subsection \<open>C1: round trip\<close>

text \<open>
  Claim C1, as the code has it. Let the system held in a lane be strictly diagonally
  dominant and let its right-hand side be \<open>A x\<close>. Then \<open>ThomasSolver::solve\<close>, for any
  \<open>M \<ge> 1\<close> rows and in every lane, returns and leaves \<open>x\<close> in the right-hand side. So
  does \<open>PCRSolver::solve\<close> (which works in lane \<open>0\<close>) for \<open>M \<ge> 2\<close> rows, provided the two
  array entries outside the matrix, \<open>sub[0]\<close> and \<open>super[M-1]\<close>, are zero.
\<close>

theorem C1_round_trip:
  assumes "sNRow s = M"
  shows "(1 \<le> M \<and> i < VecLength \<and> dominant M (sys_of s i) \<and> solves M (sys_of s i) x \<longrightarrow>
            (\<exists>s'. ThomasSolver_solve VecLength s = Inr s' \<and> (\<forall>k<M. sX s' k i = x k))) \<and>
         (2 \<le> M \<and> dominant M (sys_of s 0) \<and> boundary_zero M (sys_of s 0) \<and>
            solves M (sys_of s 0) x \<longrightarrow>
            (\<exists>s'. PCRSolver_solve s = Inr s' \<and> (\<forall>k<M. sX s' k 0 = x k)))"
proof (intro conjI impI; elim conjE)
  assume M: "1 \<le> M" and i: "i < VecLength"
    and dom: "dominant M (sys_of s i)" and x: "solves M (sys_of s i) x"
  from ThomasSolver_solve_thomas [OF assms M, of VecLength]
  obtain s' where s': "ThomasSolver_solve VecLength s = Inr s'"
    and v: "\<forall>i<VecLength. \<forall>k<M. sX s' k i = thomas M (sys_of s i) k"
    by blast
  from v i have "\<forall>k<M. sX s' k i = x k"
    by (simp add: thomas_round_trip [OF dom x])
  with s' show "\<exists>s'. ThomasSolver_solve VecLength s = Inr s' \<and> (\<forall>k<M. sX s' k i = x k)"
    by blast
next
  assume M: "2 \<le> M" and dom: "dominant M (sys_of s 0)" and bz: "boundary_zero M (sys_of s 0)"
    and x: "solves M (sys_of s 0) x"
  from PCRSolver_solve_spec [OF assms M]
  obtain s' where s': "PCRSolver_solve s = Inr s'"
    and v: "\<forall>k<M. sX s' k 0 = spec_pcr M (sys_of s 0) k"
    by blast
  from v have "\<forall>k<M. sX s' k 0 = x k"
    by (simp add: pcr_round_trip [OF dom bz x M])
  with s' show "\<exists>s'. PCRSolver_solve s = Inr s' \<and> (\<forall>k<M. sX s' k 0 = x k)"
    by blast
qed

theorem C1_round_trip_witness:
  "(\<exists>s'. ThomasSolver_solve 2 scenario4 = Inr s' \<and> map (\<lambda>k. sX s' k 1) [0..<4] = [1, 1, 1, 1]) \<and>
   (\<exists>s'. PCRSolver_solve scenario4 = Inr s' \<and> map (\<lambda>k. sX s' k 0) [0..<4] = [1, 1, 1, 1])"
proof -
  have u: "[0..<4] = [0, Suc 0, Suc (Suc 0), Suc (Suc (Suc 0))]"
    by (simp add: upt_conv_Cons)
  have k4: "Suc (Suc (Suc 0)) < (4::nat)" "Suc (Suc 0) < (4::nat)" by simp_all
  note c = C1_round_trip [OF scenario4_facts(1), of 1 2 "\<lambda>k. 1"]
  from c [THEN conjunct1] scenario4_facts(2,4) [of 1]
  obtain s1 where s1: "ThomasSolver_solve 2 scenario4 = Inr s1" "\<forall>k<4. sX s1 k 1 = 1"
    by auto
  from c [THEN conjunct2] scenario4_facts(2,3,4) [of 0]
  obtain s2 where s2: "PCRSolver_solve scenario4 = Inr s2" "\<forall>k<4. sX s2 k 0 = 1"
    by auto
  from s1(2) s2(2) have "map (\<lambda>k. sX s1 k 1) [0..<4] = [1, 1, 1, 1]"
    "map (\<lambda>k. sX s2 k 0) [0..<4] = [1, 1, 1, 1]"
    unfolding u using k4 by simp_all
  with s1(1) s2(1) show ?thesis
    by (intro conjI exI [of _ s1] exI [of _ s2])
qed

text \<open>
  The claim as stated fails for \<open>PCRSolver::solve\<close> on a strictly diagonally dominant
  system of three rows with \<open>rhs = A x\<close>, \<open>x = [1, 1, 1]\<close>, whose entries \<open>sub[0]\<close> and
  \<open>super[2]\<close> are \<open>1\<close>: the clamped neighbour indices make row \<open>0\<close> eliminate with
  itself, and the result is not \<open>x\<close>.
\<close>

theorem C1_round_trip_counterexample:
  "dominant 3 (sys_of corners3 0) \<and> solves 3 (sys_of corners3 0) (\<lambda>k. 1) \<and>
   (\<exists>s'. PCRSolver_solve corners3 = Inr s' \<and> map (\<lambda>k. sX s' k 0) [0..<3] = [9 / 13, 1, 9 / 13])"
proof -
  have "dominant 3 (sys_of corners3 0)" "solves 3 (sys_of corners3 0) (\<lambda>k. 1)"
    by (simp_all add: dominant_def solves_def matvec_def sys_of_simps
      corners3_def rows_def eval_nat_numeral All_less_Suc)
  moreover have "\<exists>s'. PCRSolver_solve corners3 = Inr s' \<and>
      map (\<lambda>k. sX s' k 0) [0..<3] = [9 / 13, 1, 9 / 13]"
    by (simp add: PCRSolver_solve_def corners3_def rows_def ceil_log2_def shl1_def PCR_level_def
        PCR_final_def PCR_level_read_def PCR_level_write_def put_def upt_conv_Cons Let_def)
  ultimately show ?thesis by blast
qed

subsection \<open>C2: the two backends agree\<close>

text \<open>
  Claim C2, as the code has it. Let a system of \<open>M \<ge> 2\<close> rows be strictly diagonally
  dominant with zero entries \<open>sub[0]\<close> and \<open>super[M-1]\<close>, held in lane \<open>i\<close> of the scratch
  of \<open>ThomasSolver\<close> and in lane \<open>0\<close> of the scratch of \<open>PCRSolver\<close>: both solvers return
  and leave the same solution. Let a diffusion system of \<open>M \<ge> 2\<close> rows have the last
  coupling \<open>G(M-1) = 0\<close> and a strictly diagonally dominant explicit form:
  \<open>ThomasDiffusionSolver\<close> and \<open>PCRDiffusionSolver\<close> return and leave the same solution.
\<close>

theorem C2_backend_equivalence:
  "(sNRow s = M \<and> sNRow p = M \<and> sys_of s i = sys_of p 0 \<and> i < VecLength \<and> 2 \<le> M \<and>
      dominant M (sys_of p 0) \<and> boundary_zero M (sys_of p 0) \<longrightarrow>
      (\<exists>s' p'. ThomasSolver_solve VecLength s = Inr s' \<and> PCRSolver_solve p = Inr p' \<and>
               (\<forall>k<M. sX s' k i = sX p' k 0))) \<and>
   (dNRow sd = M \<and> dNRow pd = M \<and> dsys_of sd i = dsys_of pd 0 \<and> i < VecLength \<and> 2 \<le> M \<and>
      dG pd (M - 1) 0 = 0 \<and> dominant M (translate M (dsys_of pd 0)) \<longrightarrow>
      (\<exists>s' p'. ThomasDiffusionSolver_solve VecLength sd = Inr s' \<and>
               PCRDiffusionSolver_solve pd = Inr p' \<and>
               (\<forall>k<M. dX s' k i = dX p' k 0)))"
proof (intro conjI impI; elim conjE)
  assume s: "sNRow s = M" and p: "sNRow p = M" and e: "sys_of s i = sys_of p 0"
    and i: "i < VecLength" and M: "2 \<le> M"
    and dom: "dominant M (sys_of p 0)" and bz: "boundary_zero M (sys_of p 0)"
  from M have M1: "1 \<le> M" by simp
  from ThomasSolver_solve_thomas [OF s M1, of VecLength]
  obtain s' where s': "ThomasSolver_solve VecLength s = Inr s'"
    and vs: "\<forall>i<VecLength. \<forall>k<M. sX s' k i = thomas M (sys_of s i) k"
    by blast
  from PCRSolver_solve_spec [OF p M]
  obtain p' where p': "PCRSolver_solve p = Inr p'"
    and vp: "\<forall>k<M. sX p' k 0 = spec_pcr M (sys_of p 0) k"
    by blast
  have "\<forall>k<M. sX s' k i = sX p' k 0"
    using vs vp i by (simp add: e thomas_is_pcr [OF dom bz M])
  with s' p' show "\<exists>s' p'. ThomasSolver_solve VecLength s = Inr s' \<and> PCRSolver_solve p = Inr p' \<and>
               (\<forall>k<M. sX s' k i = sX p' k 0)"
    by blast
next
  assume s: "dNRow sd = M" and p: "dNRow pd = M" and e: "dsys_of sd i = dsys_of pd 0"
    and i: "i < VecLength" and M: "2 \<le> M"
    and G: "dG pd (M - 1) 0 = 0" and dom: "dominant M (translate M (dsys_of pd 0))"
  from M have M1: "1 \<le> M" by simp
  from ThomasDiffusionSolver_solve_spec [OF s M1, of VecLength]
  obtain s' where s': "ThomasDiffusionSolver_solve VecLength sd = Inr s'"
    and vs: "\<forall>i<VecLength. \<forall>k<M. dX s' k i =
       spec_diff_x M (q_G (dsys_of sd i)) (q_H (dsys_of sd i)) (q_X (dsys_of sd i)) k"
    by blast
  from PCRDiffusionSolver_solve_spec [OF p M]
  obtain p' where p': "PCRDiffusionSolver_solve pd = Inr p'"
    and vp: "\<forall>k<M. dX p' k 0 = spec_pcrdiff M (dsys_of pd 0) k"
    by blast
  from G have G': "q_G (dsys_of pd 0) (M - 1) = 0"
    by (simp add: dsys_of_simps)
  have "spec_diff_x M (q_G (dsys_of pd 0)) (q_H (dsys_of pd 0)) (q_X (dsys_of pd 0)) k =
      spec_pcrdiff M (dsys_of pd 0) k" if "k < M" for k
    by (simp only: thomasdiff_is_thomas [OF G' dom that]
        thomas_is_pcr [OF dom translate_boundary M that] pcrdiff_is_pcr [OF M G' dom that])
  then have "\<forall>k<M. dX s' k i = dX p' k 0"
    using vs vp i by (simp add: e)
  with s' p' show "\<exists>s' p'. ThomasDiffusionSolver_solve VecLength sd = Inr s' \<and>
               PCRDiffusionSolver_solve pd = Inr p' \<and> (\<forall>k<M. dX s' k i = dX p' k 0)"
    by blast
qed

theorem C2_backend_equivalence_witness:
  "(\<exists>s' p'. ThomasSolver_solve 2 scenario4 = Inr s' \<and> PCRSolver_solve scenario4 = Inr p' \<and>
            (\<forall>k<4. sX s' k 1 = sX p' k 0)) \<and>
   (\<exists>s' p'. ThomasDiffusionSolver_solve 2 diffusion4 = Inr s' \<and>
            PCRDiffusionSolver_solve diffusion4 = Inr p' \<and>
            (\<forall>k<4. dX s' k 1 = dX p' k 0))"
proof -
  have e: "sys_of scenario4 1 = sys_of scenario4 0" "dsys_of diffusion4 1 = dsys_of diffusion4 0"
    by (simp_all add: sys_of_def dsys_of_def scenario4_def diffusion4_def rows_def lane_def)
  from C2_backend_equivalence [of scenario4 4 scenario4 1 2 diffusion4 diffusion4]
    scenario4_facts(1) scenario4_facts(2,3) [of 0] diffusion4_facts(1) diffusion4_facts(2,3) [of 0] e
  show ?thesis by simp
qed

text \<open>
  The claim as stated fails on a strictly diagonally dominant system of three rows whose
  entries \<open>sub[0]\<close> and \<open>super[2]\<close> are \<open>1\<close>: \<open>ThomasSolver\<close> never reads them and
  returns \<open>[1, 1, 1]\<close>, \<open>PCRSolver\<close> returns \<open>[9/13, 1, 9/13]\<close>.
\<close>

theorem C2_backend_equivalence_counterexample:
  "dominant 3 (sys_of corners3 0) \<and>
   (\<exists>s'. ThomasSolver_solve 1 corners3 = Inr s' \<and> map (\<lambda>k. sX s' k 0) [0..<3] = [1, 1, 1]) \<and>
   (\<exists>p'. PCRSolver_solve corners3 = Inr p' \<and> map (\<lambda>k. sX p' k 0) [0..<3] = [9 / 13, 1, 9 / 13])"
proof -
  have "dominant 3 (sys_of corners3 0)"
    by (simp add: dominant_def sys_of_simps corners3_def rows_def eval_nat_numeral All_less_Suc)
  moreover have "\<exists>s'. ThomasSolver_solve 1 corners3 = Inr s' \<and>
      map (\<lambda>k. sX s' k 0) [0..<3] = [1, 1, 1]"
    by (simp add: ThomasSolver_solve_def corners3_def rows_def Let_def upt_conv_Cons
        Thomas_forward_def Thomas_last_def Thomas_backward_def put_def)
  moreover have "\<exists>s'. PCRSolver_solve corners3 = Inr s' \<and>
      map (\<lambda>k. sX s' k 0) [0..<3] = [9 / 13, 1, 9 / 13]"
    by (simp add: PCRSolver_solve_def corners3_def rows_def ceil_log2_def shl1_def PCR_level_def
        PCR_final_def PCR_level_read_def PCR_level_write_def put_def upt_conv_Cons Let_def)
  ultimately show ?thesis by blast
qed

subsection \<open>C3: the diffusion solvers and the general solvers\<close>

text \<open>
  Claim C3, as the code has it. Let a diffusion system have the last coupling
  \<open>G(M-1) = 0\<close> and let its explicit form (\<open>translate\<close>: diagonal \<open>H(k)\<close> plus the
  couplings to the one or two neighbours of row \<open>k\<close>, off-diagonals the negated
  couplings) be strictly diagonally dominant. Then \<open>ThomasDiffusionSolver\<close> and
  \<open>ThomasSolver\<close> on the explicit form return the same solution, for \<open>M \<ge> 1\<close> and in
  every lane; so do \<open>PCRDiffusionSolver\<close> and \<open>PCRSolver\<close> on the explicit form, for
  \<open>M \<ge> 2\<close>.
\<close>

theorem C3_diffusion_general_agreement:
  assumes "dNRow sd = M"
  shows "(1 \<le> M \<and> i < VecLength \<and> dG sd (M - 1) i = 0 \<and>
            dominant M (translate M (dsys_of sd i)) \<longrightarrow>
            (\<exists>d' s'. ThomasDiffusionSolver_solve VecLength sd = Inr d' \<and>
                     ThomasSolver_solve VecLength (translated sd) = Inr s' \<and>
                     (\<forall>k<M. dX d' k i = sX s' k i))) \<and>
         (2 \<le> M \<and> dG sd (M - 1) 0 = 0 \<and> dominant M (translate M (dsys_of sd 0)) \<longrightarrow>
            (\<exists>d' s'. PCRDiffusionSolver_solve sd = Inr d' \<and>
                     PCRSolver_solve (translated sd) = Inr s' \<and>
                     (\<forall>k<M. dX d' k 0 = sX s' k 0)))"
proof (intro conjI impI; elim conjE)
  assume M: "1 \<le> M" and i: "i < VecLength" and G: "dG sd (M - 1) i = 0"
    and dom: "dominant M (translate M (dsys_of sd i))"
  from ThomasDiffusionSolver_solve_spec [OF assms M, of VecLength]
  obtain d' where d': "ThomasDiffusionSolver_solve VecLength sd = Inr d'"
    and vd: "\<forall>i<VecLength. \<forall>k<M. dX d' k i =
       spec_diff_x M (q_G (dsys_of sd i)) (q_H (dsys_of sd i)) (q_X (dsys_of sd i)) k"
    by blast
  have "sNRow (translated sd) = M"
    by (simp add: translated_NRow assms)
  from ThomasSolver_solve_thomas [OF this M, of VecLength]
  obtain s' where s': "ThomasSolver_solve VecLength (translated sd) = Inr s'"
    and vs: "\<forall>i<VecLength. \<forall>k<M. sX s' k i = thomas M (sys_of (translated sd) i) k"
    by blast
  from G have G': "q_G (dsys_of sd i) (M - 1) = 0"
    by (simp add: dsys_of_simps)
  have "\<forall>k<M. dX d' k i = sX s' k i"
    using vd vs i by (simp add: sys_of_translated assms thomasdiff_is_thomas [OF G' dom])
  with d' s' show "\<exists>d' s'. ThomasDiffusionSolver_solve VecLength sd = Inr d' \<and>
      ThomasSolver_solve VecLength (translated sd) = Inr s' \<and> (\<forall>k<M. dX d' k i = sX s' k i)"
    by blast
next
  assume M: "2 \<le> M" and G: "dG sd (M - 1) 0 = 0"
    and dom: "dominant M (translate M (dsys_of sd 0))"
  from PCRDiffusionSolver_solve_spec [OF assms M]
  obtain d' where d': "PCRDiffusionSolver_solve sd = Inr d'"
    and vd: "\<forall>k<M. dX d' k 0 = spec_pcrdiff M (dsys_of sd 0) k"
    by blast
  have "sNRow (translated sd) = M"
    by (simp add: translated_NRow assms)
  from PCRSolver_solve_spec [OF this M]
  obtain s' where s': "PCRSolver_solve (translated sd) = Inr s'"
    and vs: "\<forall>k<M. sX s' k 0 = spec_pcr M (sys_of (translated sd) 0) k"
    by blast
  from G have G': "q_G (dsys_of sd 0) (M - 1) = 0"
    by (simp add: dsys_of_simps)
  have "\<forall>k<M. dX d' k 0 = sX s' k 0"
    using vd vs by (simp add: sys_of_translated assms pcrdiff_is_pcr [OF M G' dom])
  with d' s' show "\<exists>d' s'. PCRDiffusionSolver_solve sd = Inr d' \<and>
      PCRSolver_solve (translated sd) = Inr s' \<and> (\<forall>k<M. dX d' k 0 = sX s' k 0)"
    by blast
qed

theorem C3_diffusion_general_agreement_witness:
  "(\<exists>d' s'. ThomasDiffusionSolver_solve 2 diffusion4 = Inr d' \<and>
            ThomasSolver_solve 2 (translated diffusion4) = Inr s' \<and>
            (\<forall>k<4. dX d' k 1 = sX s' k 1)) \<and>
   (\<exists>d' s'. PCRDiffusionSolver_solve diffusion4 = Inr d' \<and>
            PCRSolver_solve (translated diffusion4) = Inr s' \<and>
            (\<forall>k<4. dX d' k 0 = sX s' k 0))"
  using C3_diffusion_general_agreement [OF diffusion4_facts(1), of 1 2] diffusion4_facts(2,3)
  by simp

text \<open>
  The claim as stated fails on a diffusion system of two rows with \<open>G = [1, 1]\<close>,
  \<open>H = [1, 1]\<close>, \<open>rhs = [1, 1]\<close>: the diffusion solver adds the coupling \<open>G(1)\<close> of the last
  row, which has no second neighbour, to its diagonal (\<open>H[k] += alpha[k] + G[k]\<close> for
  every \<open>k\<close>) and returns \<open>[4/5, 3/5]\<close>, while the explicit form has the solution \<open>[1, 1]\<close>.
\<close>

theorem C3_diffusion_general_agreement_counterexample:
  "dominant 2 (translate 2 (dsys_of diffusion2 0)) \<and>
   (\<exists>d'. ThomasDiffusionSolver_solve 1 diffusion2 = Inr d' \<and>
          map (\<lambda>k. dX d' k 0) [0..<2] = [4 / 5, 3 / 5]) \<and>
   (\<exists>s'. ThomasSolver_solve 1 (translated diffusion2) = Inr s' \<and>
          map (\<lambda>k. sX s' k 0) [0..<2] = [1, 1])"
proof -
  have "dominant 2 (translate 2 (dsys_of diffusion2 0))"
    by (simp add: dominant_def translate_def dsys_of_simps diffusion2_def rows_def
      eval_nat_numeral All_less_Suc)
  moreover have "\<exists>d'. ThomasDiffusionSolver_solve 1 diffusion2 = Inr d' \<and>
          map (\<lambda>k. dX d' k 0) [0..<2] = [4 / 5, 3 / 5]"
    by (simp add: ThomasDiffusionSolver_solve_def diffusion2_def rows_def Let_def upt_conv_Cons
        ThomasDiff_alpha0_def ThomasDiff_alpha_def ThomasDiff_h0_def ThomasDiff_forward_def
        ThomasDiff_last_def ThomasDiff_backward_def put_def)
  moreover have "\<exists>s'. ThomasSolver_solve 1 (translated diffusion2) = Inr s' \<and>
          map (\<lambda>k. sX s' k 0) [0..<2] = [1, 1]"
    by (simp add: ThomasSolver_solve_def translated_def translate_def dsys_of_simps
        diffusion2_def rows_def Let_def upt_conv_Cons
        Thomas_forward_def Thomas_last_def Thomas_backward_def put_def)
  ultimately show ?thesis by blast
qed

subsection \<open>C4: the steps of the cyclic reduction\<close>

text \<open>
  Claim C4, evaluated at the one-row system \<open>2 x = 6\<close>: the specification's algorithm
  has \<open>L = 0\<close>, runs no level and divides the only row directly, \<open>x[0] = 3\<close>;
  \<open>PCRSolver::solve\<close> shifts by \<open>L - 1 = -1\<close> instead.
\<close>

theorem C4_single_row_evaluation:
  "PCRSolver_solve single_row = Inl UndefinedShift \<and>
   ceil_log2 (sNRow single_row) = 0 \<and>
   spec_pcr (sNRow single_row) (sys_of single_row 0) 0 = 3"
  by (simp add: PCRSolver_solve_def single_row_def ceil_log2_def shl1_def
      spec_pcr_def spec_pcr_x_def sys_of_def lane_def rows_def)

subsection \<open>C5: the steps of the sequential diffusion solver\<close>

text \<open>
  Claim C5. For every system of \<open>M \<ge> 1\<close> rows and every lane, \<open>ThomasDiffusionSolver\<close>
  returns, and leaves in the scratch the values the specification describes:
  \<open>alpha[0] = 0\<close> and \<open>alpha[k] = G[k-1] * (H[k-1] + alpha[k-1]) / (H[k-1] + alpha[k-1] + G[k-1])\<close>
  from the original \<open>H\<close> (\<open>spec_alpha\<close>); \<open>H[0] + G[0]\<close> and \<open>H[k] + alpha[k] + G[k]\<close>
  as the updated \<open>H\<close> (\<open>spec_H\<close>); the right-hand side accumulated with the updated
  \<open>H[k-1]\<close> (\<open>spec_rhs\<close>); and the back-substitution \<open>x[M-1] = rhs[M-1] / H[M-1]\<close>,
  \<open>x[k] = (rhs[k] + G[k] * x[k+1]) / H[k]\<close> (\<open>spec_diff_x\<close>). \<open>G\<close> is not changed.
\<close>

theorem C5_diffusion_sequential_steps:
  assumes "dNRow s = M" and "1 \<le> M"
  shows "\<exists>s'. ThomasDiffusionSolver_solve VecLength s = Inr s' \<and> dG s' = dG s \<and>
    (\<forall>i<VecLength. \<forall>k<M.
       dAlpha s' k i = spec_alpha (lane (dG s) i) (lane (dH s) i) k \<and>
       dH s' k i = spec_H (lane (dG s) i) (lane (dH s) i) k \<and>
       dX s' k i = spec_diff_x M (lane (dG s) i) (lane (dH s) i) (lane (dX s) i) k)"
proof -
  from assms obtain m where m: "M = Suc m"
    by (cases M) auto
  with assms have "dNRow s = Suc m" by simp
  from ThomasDiffusionSolver_solve_eq [OF this, of VecLength] show ?thesis
    by (simp add: m less_Suc_eq_le)
qed

theorem C5_diffusion_sequential_steps_witness:
  "\<exists>s'. ThomasDiffusionSolver_solve 2 diffusion4 = Inr s' \<and>
     map (\<lambda>k. dAlpha s' k 1) [0..<4] = [0, 3 / 4, 11 / 15, 41 / 56] \<and>
     map (\<lambda>k. dH s' k 1) [0..<4] = [4, 15 / 4, 56 / 15, 209 / 56] \<and>
     map (\<lambda>k. dX s' k 1) [0..<4] = [1, 2, 3, 4]"
proof -
  have n: "dNRow diffusion4 = 4" and le: "1 \<le> (4::nat)"
    by (simp_all add: diffusion4_def)
  from C5_diffusion_sequential_steps [OF n le, of 2]
  obtain s' where s': "ThomasDiffusionSolver_solve 2 diffusion4 = Inr s'"
    and v: "\<forall>i<2. \<forall>k<4.
       dAlpha s' k i = spec_alpha (lane (dG diffusion4) i) (lane (dH diffusion4) i) k \<and>
       dH s' k i = spec_H (lane (dG diffusion4) i) (lane (dH diffusion4) i) k \<and>
       dX s' k i = spec_diff_x 4 (lane (dG diffusion4) i) (lane (dH diffusion4) i)
                     (lane (dX diffusion4) i) k"
    by blast
  have u: "[0..<4] = [0, Suc 0, Suc (Suc 0), Suc (Suc (Suc 0))]"
    by (simp add: upt_conv_Cons)
  have four: "(4::nat) = Suc (Suc (Suc (Suc 0)))" by simp
  from v have "map (\<lambda>k. dAlpha s' k 1) [0..<4] = [0, 3 / 4, 11 / 15, 41 / 56]"
    and "map (\<lambda>k. dH s' k 1) [0..<4] = [4, 15 / 4, 56 / 15, 209 / 56]"
    and "map (\<lambda>k. dX s' k 1) [0..<4] = [1, 2, 3, 4]"
    unfolding u
    by (simp_all add: diffusion4_def rows_def lane_def spec_diff_x_def diff_back.simps four)
  with s' show ?thesis by (intro exI [of _ s'] conjI)
qed

subsection \<open>C6: padding\<close>



subsection \<open>C7: systems of one row\<close>

text \<open>
  Claim C7, evaluated at the one-row system \<open>2 x = 6\<close>. \<open>PCRSolver::solve\<close> computes
  \<open>NLevels = 0\<close> and then \<^verbatim>\<open>1 << (NLevels - 1)\<close>, a shift by \<open>-1\<close>. Whatever stride not
  above zero the hardware delivers (\<open>-2^31\<close> where the shift count is masked to five
  bits, \<open>0\<close> where it is clamped), the code after the loop takes the pairing branch, fails
  the test \<open>K < NRow / 2\<close> and leaves \<open>6\<close> in place of the quotient \<open>3\<close>.
  \<open>ThomasSolver::solve\<close> returns \<open>3\<close>.
\<close>

theorem C7_single_row_evaluation:
  "PCRSolver_solve single_row = Inl UndefinedShift \<and>
   sX (PCR_final (- (2 ^ 31)) 0 single_row) 0 0 = 6 \<and>
   sX (PCR_final 0 0 single_row) 0 0 = 6 \<and>
   (\<exists>s'. ThomasSolver_solve 1 single_row = Inr s' \<and> sX s' 0 0 = 3)"
  by (simp add: PCRSolver_solve_def ThomasSolver_solve_def single_row_def ceil_log2_def shl1_def
      PCR_final_def Thomas_last_def put_apply rows_def)

subsection \<open>C8: the concrete scenario\<close>

text \<open>
  Claim C8. The system with \<open>sub = [0,1,1,1]\<close>, \<open>diag = [4,4,4,4]\<close>, \<open>super = [1,1,1,0]\<close>
  and \<open>rhs = [5,6,6,5]\<close> is solved to \<open>[1,1,1,1]\<close>, over exact arithmetic: by
  \<open>ThomasSolver\<close> and by \<open>PCRSolver\<close> called on arrays that hold it as a batch of one
  system (for every lane width \<open>VecLength > 0\<close> and whatever the scratch memory held
  before), and by both solvers called on a scratch that holds it (in every lane for
  \<open>ThomasSolver\<close>, in lane \<open>0\<close> for \<open>PCRSolver\<close>).
\<close>

theorem C8_concrete_scenario:
  assumes "0 < VecLength"
  shows "(\<exists>h'. ThomasSolver_solve_arrays VecLength 0 mem
              (view A_DL 1 4) (view A_D 1 4) (view A_DU 1 4) (view A_X 1 4) scenario_store = Inr h' \<and>
            map (h' A_X 0) [0..<4] = [1, 1, 1, 1]) \<and>
         (\<exists>h'. PCRSolver_solve_arrays 0 mem
              (view A_DL 1 4) (view A_D 1 4) (view A_DU 1 4) (view A_X 1 4) scenario_store = Inr h' \<and>
            map (h' A_X 0) [0..<4] = [1, 1, 1, 1]) \<and>
         (\<forall>i<VecLength. \<exists>s'. ThomasSolver_solve VecLength scenario4 = Inr s' \<and>
            map (\<lambda>k. sX s' k i) [0..<4] = [1, 1, 1, 1]) \<and>
         (\<exists>s'. PCRSolver_solve scenario4 = Inr s' \<and> map (\<lambda>k. sX s' k 0) [0..<4] = [1, 1, 1, 1])"
proof -
  have u: "[0..<4] = [0, Suc 0, Suc (Suc 0), Suc (Suc (Suc 0))]"
    by (simp add: upt_conv_Cons)
  have k4: "Suc (Suc (Suc 0)) < (4::nat)" "Suc (Suc 0) < (4::nat)" "Suc 0 < (4::nat)" "0 < (4::nat)"
    by simp_all
  have t: "thomas 4 (row_sys scenario_store (view A_DL n m) (view A_D n m) (view A_DU n m)
      (view A_X n m) 0) k = 1" if "k < 4" for k n m
    by (rule thomas_round_trip [OF scenario_store_facts(1,3) that])
  have p: "spec_pcr 4 (row_sys scenario_store (view A_DL n m) (view A_D n m) (view A_DU n m)
      (view A_X n m) 0) k = 1" if "k < 4" for k n m
    by (rule pcr_round_trip [OF scenario_store_facts(1,2,3) _ that]) simp
  have e: "1 \<le> extent1 (view A_X 1 4)" "2 \<le> extent1 (view A_X 1 4)"
    by (simp_all add: view_simps)
  have 1: "\<exists>h'. ThomasSolver_solve_arrays VecLength 0 mem
              (view A_DL 1 4) (view A_D 1 4) (view A_DU 1 4) (view A_X 1 4) scenario_store = Inr h' \<and>
            map (h' A_X 0) [0..<4] = [1, 1, 1, 1]"
    unfolding ThomasSolver_solve_arrays_eq [OF e(1)] u
    using assms k4 by (simp add: view_simps t)
  have 2: "\<exists>h'. PCRSolver_solve_arrays 0 mem
              (view A_DL 1 4) (view A_D 1 4) (view A_DU 1 4) (view A_X 1 4) scenario_store = Inr h' \<and>
            map (h' A_X 0) [0..<4] = [1, 1, 1, 1]"
    unfolding PCRSolver_solve_arrays_eq [OF e(2)] u
    using k4 by (simp add: view_simps p)
  have 3: "\<exists>s'. ThomasSolver_solve VecLength scenario4 = Inr s' \<and>
            map (\<lambda>k. sX s' k i) [0..<4] = [1, 1, 1, 1]" if i: "i < VecLength" for i
  proof -
    have M: "1 \<le> (4::nat)" by simp
    from ThomasSolver_solve_thomas [OF scenario4_facts(1) M, of VecLength]
    obtain s' where s': "ThomasSolver_solve VecLength scenario4 = Inr s'"
      and v: "\<forall>i<VecLength. \<forall>k<4. sX s' k i = thomas 4 (sys_of scenario4 i) k"
      by blast
    from v i have "\<forall>k<4. sX s' k i = 1"
      by (simp add: thomas_round_trip [OF scenario4_facts(2,4)])
    then have "map (\<lambda>k. sX s' k i) [0..<4] = [1, 1, 1, 1]"
      unfolding u using k4 by simp
    with s' show ?thesis by (intro exI [of _ s'] conjI)
  qed
  have 4: "\<exists>s'. PCRSolver_solve scenario4 = Inr s' \<and> map (\<lambda>k. sX s' k 0) [0..<4] = [1, 1, 1, 1]"
  proof -
    have M: "2 \<le> (4::nat)" by simp
    from PCRSolver_solve_spec [OF scenario4_facts(1) M]
    obtain s' where s': "PCRSolver_solve scenario4 = Inr s'"
      and v: "\<forall>k<4. sX s' k 0 = spec_pcr 4 (sys_of scenario4 0) k"
      by blast
    from v have "\<forall>k<4. sX s' k 0 = 1"
      by (simp add: pcr_round_trip [OF scenario4_facts(2,3,4) M])
    then have "map (\<lambda>k. sX s' k 0) [0..<4] = [1, 1, 1, 1]"
      unfolding u using k4 by simp
    with s' show ?thesis by (intro exI [of _ s'] conjI)
  qed
  show ?thesis by (intro conjI allI impI 1 2 3 4)
qed

theorem C8_concrete_scenario_witness:
  "(\<exists>h'. ThomasSolver_solve_arrays 8 0 scenario4
              (view A_DL 1 4) (view A_D 1 4) (view A_DU 1 4) (view A_X 1 4) scenario_store = Inr h' \<and>
            map (h' A_X 0) [0..<4] = [1, 1, 1, 1]) \<and>
   (\<exists>h'. PCRSolver_solve_arrays 0 scenario4
              (view A_DL 1 4) (view A_D 1 4) (view A_DU 1 4) (view A_X 1 4) scenario_store = Inr h' \<and>
            map (h' A_X 0) [0..<4] = [1, 1, 1, 1]) \<and>
   (\<exists>s'. ThomasSolver_solve 8 scenario4 = Inr s' \<and> map (\<lambda>k. sX s' k 7) [0..<4] = [1, 1, 1, 1]) \<and>
   (\<exists>s'. PCRSolver_solve scenario4 = Inr s' \<and> map (\<lambda>k. sX s' k 0) [0..<4] = [1, 1, 1, 1])"
proof -
  have "0 < (8::nat)" by simp
  from C8_concrete_scenario [OF this, of scenario4] show ?thesis
    by simp
qed

subsection \<open>C10: the coefficient arrays are unchanged\<close>

text \<open>
  Claim C10. Whenever one of the four array-level entry points returns, every array of the
  caller other than \<open>X\<close> holds the values it held before the call: the coefficients are
  copied into the scratch, the elimination updates the scratch, and only \<open>X\<close> is written
  back. In particular \<open>DL\<close>, \<open>D\<close>, \<open>DU\<close> (and \<open>G\<close>, \<open>H\<close>) are unchanged whenever they are
  arrays other than \<open>X\<close>.
\<close>

theorem C10_coefficient_arrays_unchanged:
  "(ThomasSolver_solve_arrays VecLength r mem DL D DU X h = Inr h1 \<longrightarrow>
      (\<forall>a. a \<noteq> ident X \<longrightarrow> h1 a = h a)) \<and>
   (PCRSolver_solve_arrays r mem DL D DU X h = Inr h2 \<longrightarrow>
      (\<forall>a. a \<noteq> ident X \<longrightarrow> h2 a = h a)) \<and>
   (ThomasDiffusionSolver_solve_arrays VecLength r dmem G H X h = Inr h3 \<longrightarrow>
      (\<forall>a. a \<noteq> ident X \<longrightarrow> h3 a = h a)) \<and>
   (PCRDiffusionSolver_solve_arrays r dmem G H X h = Inr h4 \<longrightarrow>
      (\<forall>a. a \<noteq> ident X \<longrightarrow> h4 a = h a))"
proof (intro conjI impI allI)
  fix a assume a: "a \<noteq> ident X"
  {
    assume "ThomasSolver_solve_arrays VecLength r mem DL D DU X h = Inr h1"
    then show "h1 a = h a"
      using a by (auto simp add: ThomasSolver_solve_arrays_def Thomas_writeback_eq split: sum.splits)
  next
    assume "PCRSolver_solve_arrays r mem DL D DU X h = Inr h2"
    then show "h2 a = h a"
      using a by (auto simp add: PCRSolver_solve_arrays_def PCR_writeback_eq split: sum.splits)
  next
    assume "ThomasDiffusionSolver_solve_arrays VecLength r dmem G H X h = Inr h3"
    then show "h3 a = h a"
      using a by (auto simp add: ThomasDiffusionSolver_solve_arrays_def ThomasDiff_writeback_eq
          split: sum.splits)
  next
    assume "PCRDiffusionSolver_solve_arrays r dmem G H X h = Inr h4"
    then show "h4 a = h a"
      using a by (auto simp add: PCRDiffusionSolver_solve_arrays_def PCRDiff_writeback_eq Let_def
          split: sum.splits if_splits)
  }
qed

theorem C10_coefficient_arrays_unchanged_witness:
  "(\<exists>h'. ThomasSolver_solve_arrays 2 0 scenario4
            (view A_DL 1 4) (view A_D 1 4) (view A_DU 1 4) (view A_X 1 4) scenario_store = Inr h' \<and>
          h' A_DL = scenario_store A_DL \<and> h' A_D = scenario_store A_D \<and>
          h' A_DU = scenario_store A_DU) \<and>
   (\<exists>h'. PCRSolver_solve_arrays 0 scenario4
            (view A_DL 1 4) (view A_D 1 4) (view A_DU 1 4) (view A_X 1 4) scenario_store = Inr h' \<and>
          h' A_DL = scenario_store A_DL \<and> h' A_D = scenario_store A_D \<and>
          h' A_DU = scenario_store A_DU) \<and>
   (\<exists>h'. ThomasDiffusionSolver_solve_arrays 2 0 diffusion4
            (view A_G 1 4) (view A_H 1 4) (view A_X 1 4) scenario_store = Inr h' \<and>
          h' A_G = scenario_store A_G \<and> h' A_H = scenario_store A_H) \<and>
   (\<exists>h'. PCRDiffusionSolver_solve_arrays 0 diffusion4
            (view A_G 1 4) (view A_H 1 4) (view A_X 1 4) scenario_store = Inr h' \<and>
          h' A_G = scenario_store A_G \<and> h' A_H = scenario_store A_H)"
proof -
  have e: "1 \<le> extent1 (view A_X 1 4)" "2 \<le> extent1 (view A_X 1 4)" "0 < extent0 (view A_X 1 4)"
    by (simp_all add: view_simps)
  from ThomasSolver_solve_arrays_eq [OF e(1)]
  obtain h1 where h1: "ThomasSolver_solve_arrays 2 0 scenario4
      (view A_DL 1 4) (view A_D 1 4) (view A_DU 1 4) (view A_X 1 4) scenario_store = Inr h1"
    by blast
  from PCRSolver_solve_arrays_eq [OF e(2)]
  obtain h2 where h2: "PCRSolver_solve_arrays 0 scenario4
      (view A_DL 1 4) (view A_D 1 4) (view A_DU 1 4) (view A_X 1 4) scenario_store = Inr h2"
    by blast
  from ThomasDiffusionSolver_solve_arrays_eq [OF e(1)]
  obtain h3 where h3: "ThomasDiffusionSolver_solve_arrays 2 0 diffusion4
      (view A_G 1 4) (view A_H 1 4) (view A_X 1 4) scenario_store = Inr h3"
    by blast
  from PCRDiffusionSolver_solve_arrays_returns [OF e(3) e(2)]
  obtain h4 where h4: "PCRDiffusionSolver_solve_arrays 0 diffusion4
      (view A_G 1 4) (view A_H 1 4) (view A_X 1 4) scenario_store = Inr h4"
    by blast
  note c = C10_coefficient_arrays_unchanged [of 2 0 scenario4 "view A_DL 1 4" "view A_D 1 4"
      "view A_DU 1 4" "view A_X 1 4" scenario_store h1 h2 diffusion4 "view A_G 1 4" "view A_H 1 4"
      h3 h4]
  from c h1 have 1: "h1 A_DL = scenario_store A_DL \<and> h1 A_D = scenario_store A_D \<and>
      h1 A_DU = scenario_store A_DU"
    by (simp add: view_simps)
  from c h2 have 2: "h2 A_DL = scenario_store A_DL \<and> h2 A_D = scenario_store A_D \<and>
      h2 A_DU = scenario_store A_DU"
    by (simp add: view_simps)
  from c h3 have 3: "h3 A_G = scenario_store A_G \<and> h3 A_H = scenario_store A_H"
    by (simp add: view_simps)
  from c h4 have 4: "h4 A_G = scenario_store A_G \<and> h4 A_H = scenario_store A_H"
    by (simp add: view_simps)
  from h1 1 h2 2 h3 3 h4 4 show ?thesis
    by (intro conjI exI [of _ h1] exI [of _ h2] exI [of _ h3] exI [of _ h4]) simp_all
qed

end
